theory Spec2Isabelle
  imports Main
begin

unbundle bit_operations_syntax

section \<open>Python values and exceptions\<close>

text \<open>
  Keys, items and everything handed to the pickler are Python objects.  The embedding
  covers \<open>None\<close>, integers, strings, tuples and dicts (a dict is the association list of
  its entries in insertion order, with pairwise distinct keys).  On values that contain no
  dict, Python's \<open>==\<close> is equality of the terms below.
\<close>

datatype pyval =
    PNone
  | PInt int
  | PStr string
  | PTuple "pyval list"
  | PDict "(pyval \<times> pyval) list"

text \<open>
  Exceptions are values.  \<open>KeyboardInterrupt\<close> stands for the exceptions that derive from
  \<open>BaseException\<close> only; \<open>Fault\<close> is any other exception class raised by user code.
\<close>

datatype diff_reason = Does_not_contain_key pyval | Reason string

datatype error =
    StopIteration
  | KeyError pyval
  | IndexError
  | TypeError
  | ValueError
  | AttributeError
  | AssertionError
  | ZeroDivisionError
  | RuntimeError
  | EOFError
  | UnpicklingError
  | OSError
  | DiffReason diff_reason
  | KeyboardInterrupt
  | Fault string

section \<open>chunkify\<close>

text \<open>
  The position an index denotes in a sequence of \<open>len\<close> elements: \<open>-1\<close> is the last
  element, and an index outside \<open>-len .. len - 1\<close> denotes none.
\<close>

definition py_index :: "nat \<Rightarrow> int \<Rightarrow> nat option" where
  "py_index len i =
     (if 0 \<le> i \<and> i < int len then Some (nat i)
      else if i < 0 \<and> - int len \<le> i then Some (nat (int len + i))
      else None)"

text \<open>\<open>xs[i] = v\<close> on a list.\<close>

definition list_setitem :: "'a list \<Rightarrow> int \<Rightarrow> 'a \<Rightarrow> error + 'a list" where
  "list_setitem xs i v =
     (case py_index (length xs) i of None \<Rightarrow> Inl IndexError | Some j \<Rightarrow> Inr (xs[j := v]))"

text \<open>The slice \<open>xs[:k]\<close>.\<close>

definition slice_to :: "'a list \<Rightarrow> int \<Rightarrow> 'a list" where
  "slice_to xs k = (if k < 0 then take (nat (int (length xs) + k)) xs else take (nat k) xs)"

text \<open>
  A generator that runs over a list is modelled by what it yields, in order, and the
  exception that ends it, if any.  \<open>chunkify_loop\<close> is the \<open>for i, e in enumerate(iterable)\<close>
  loop with its variables \<open>offset\<close>, \<open>ret\<close> and \<open>i\<close> (the index last assigned, \<open>-1\<close> before the
  first element); \<open>out\<close> collects the chunks yielded so far.
\<close>

fun chunkify_loop ::
  "int \<Rightarrow> pyval list \<Rightarrow> int \<Rightarrow> pyval list \<Rightarrow> int \<Rightarrow> pyval list list
     \<Rightarrow> pyval list list \<times> error option" where
  "chunkify_loop n [] offset ret i out = (out @ [slice_to ret (i - offset + 1)], None)"
| "chunkify_loop n (e # es) offset ret i0 out =
     (let i = i0 + 1;
          (out', offset', ret') =
             (if i - offset = n then (out @ [ret], offset + n, replicate (nat n) PNone)
              else (out, offset, ret))
      in case list_setitem ret' (i - offset') e of
           Inl err \<Rightarrow> (out', Some err)
         | Inr ret'' \<Rightarrow> chunkify_loop n es offset' ret'' i out')"

definition chunkify :: "pyval list \<Rightarrow> int \<Rightarrow> pyval list list \<times> error option" where
  "chunkify iterable n = chunkify_loop n iterable 0 (replicate (nat n) PNone) (- 1) []"


section \<open>The Dataset contract\<close>

text \<open>
  A dataset is an object with methods; calling a method may change the state of the
  object (and of whatever it reaches), so a method is a function from the state before the
  call to the result, or the exception raised, and the state after it.  \<open>list_keys\<close> is
  modelled by the list of keys it enumerates.  \<open>items_equality\<close> can be overridden and is
  a field for that reason; \<open>context_map\<close> is the content of the \<open>_context\<close> attribute
  (empty when there is none).
\<close>

record 's dataset =
  list_keys :: "'s \<Rightarrow> (error + pyval list) \<times> 's"
  query_item :: "pyval \<Rightarrow> 's \<Rightarrow> (error + pyval) \<times> 's"
  items_equality :: "pyval \<Rightarrow> pyval \<Rightarrow> error + bool"
  context_map :: "(pyval \<times> pyval) list"

text \<open>\<open>hash(v)\<close> raises \<open>TypeError\<close> on a dict and on a tuple that contains one.\<close>

fun hashable :: "pyval \<Rightarrow> bool" where
  "hashable (PDict d) = False"
| "hashable (PTuple xs) = (\<forall>x \<in> set xs. hashable x)"
| "hashable v = True"

text \<open>\<open>len(v)\<close>.\<close>

fun py_len :: "pyval \<Rightarrow> error + nat" where
  "py_len (PTuple xs) = Inr (length xs)"
| "py_len (PStr s) = Inr (length s)"
| "py_len (PDict d) = Inr (length d)"
| "py_len v = Inl TypeError"

text \<open>\<open>xs[i]\<close> on a sequence.\<close>

definition list_getitem :: "'a list \<Rightarrow> int \<Rightarrow> error + 'a" where
  "list_getitem xs i =
     (case py_index (length xs) i of None \<Rightarrow> Inl IndexError | Some j \<Rightarrow> Inr (xs ! j))"

text \<open>The subscription \<open>a[b]\<close>; slices are not modelled.\<close>

fun py_getitem :: "pyval \<Rightarrow> pyval \<Rightarrow> error + pyval" where
  "py_getitem (PTuple xs) (PInt i) = list_getitem xs i"
| "py_getitem (PStr s) (PInt i) =
     (case list_getitem s i of Inl e \<Rightarrow> Inl e | Inr c \<Rightarrow> Inr (PStr [c]))"
| "py_getitem (PDict d) k =
     (if \<not> hashable k then Inl TypeError
      else case map_of d k of None \<Rightarrow> Inl (KeyError k) | Some v \<Rightarrow> Inr v)"
| "py_getitem a b = Inl TypeError"

text \<open>\<open>if wrap: item = (item,)\<close>.\<close>

definition wrap_item :: "bool \<Rightarrow> pyval \<Rightarrow> pyval" where
  "wrap_item wrap item = (if wrap then PTuple [item] else item)"

text \<open>
  \<open>np.array(Xs)\<close>: the array type is an external collaborator; an array is modelled by
  the list of its elements.
\<close>

definition np_array :: "pyval list \<Rightarrow> pyval list" where
  "np_array Xs = Xs"

text \<open>\<open>for j in width: XYs[j][i] = item[j]\<close>.\<close>

fun fill_column :: "pyval list list \<Rightarrow> nat \<Rightarrow> pyval \<Rightarrow> nat list \<Rightarrow> error + pyval list list" where
  "fill_column XYs i item [] = Inr XYs"
| "fill_column XYs i item (j # js) =
     (case py_getitem item (PInt (int j)) of
        Inl e \<Rightarrow> Inl e
      | Inr v \<Rightarrow>
          (case list_getitem XYs (int j) of
             Inl e \<Rightarrow> Inl e
           | Inr col \<Rightarrow>
               (case list_setitem col (int i) v of
                  Inl e \<Rightarrow> Inl e
                | Inr col' \<Rightarrow> fill_column (XYs[j := col']) i item js)))"

text \<open>\<open>for i, key in iterator: ...\<close>, over what is left of \<open>enumerate(keys)\<close>.\<close>

fun query_loop ::
  "'s dataset \<Rightarrow> bool \<Rightarrow> nat list \<Rightarrow> pyval list list \<Rightarrow> (nat \<times> pyval) list \<Rightarrow> 's
     \<Rightarrow> (error + pyval list list) \<times> 's" where
  "query_loop ds wrap width XYs [] s = (Inr XYs, s)"
| "query_loop ds wrap width XYs ((i, key) # iterator) s =
     (case query_item ds key s of
        (Inl e, s') \<Rightarrow> (Inl e, s')
      | (Inr item, s') \<Rightarrow>
          (case fill_column XYs i (wrap_item wrap item) width of
             Inl e \<Rightarrow> (Inl e, s')
           | Inr XYs' \<Rightarrow> query_loop ds wrap width XYs' iterator s'))"

text \<open>\<open>Dataset.query\<close>.  \<open>next(iterator)\<close> on an empty \<open>keys\<close> raises \<open>StopIteration\<close>.\<close>

definition query ::
  "'s dataset \<Rightarrow> pyval list \<Rightarrow> bool \<Rightarrow> 's \<Rightarrow> (error + pyval list list) \<times> 's" where
  "query ds keys wrap s =
     (case enumerate 0 keys of
        [] \<Rightarrow> (Inl StopIteration, s)
      | (_, key0) # iterator \<Rightarrow>
          (case query_item ds key0 s of
             (Inl e, s') \<Rightarrow> (Inl e, s')
           | (Inr first0, s') \<Rightarrow>
               (let first = wrap_item wrap first0 in
                case py_len first of
                  Inl e \<Rightarrow> (Inl e, s')
                | Inr w \<Rightarrow>
                    (let width = [0..<w];
                         XYs = map (\<lambda>j. replicate (length keys) PNone) width
                     in case fill_column XYs 0 first width of
                          Inl e \<Rightarrow> (Inl e, s')
                        | Inr XYs' \<Rightarrow>
                            (case query_loop ds wrap width XYs' iterator s' of
                               (Inl e, s'') \<Rightarrow> (Inl e, s'')
                             | (Inr XYs'', s'') \<Rightarrow> (Inr (map np_array XYs''), s''))))))"

text \<open>
  A recording stub around a dataset: it behaves as the dataset does and appends the key of
  every \<open>query_item\<close> call to a log kept beside the dataset's state.
\<close>

definition traced :: "'s dataset \<Rightarrow> ('s \<times> pyval list) dataset" where
  "traced ds =
     \<lparr> list_keys = (\<lambda>(s, log). case list_keys ds s of (r, s') \<Rightarrow> (r, (s', log))),
       query_item = (\<lambda>key (s, log). case query_item ds key s of (r, s') \<Rightarrow> (r, (s', log @ [key]))),
       items_equality = items_equality ds,
       context_map = context_map ds \<rparr>"

text \<open>
  What the dataset answers when \<open>query_item\<close> is called on each key of a list, one call
  after the other.
\<close>

fun call_seq :: "'s dataset \<Rightarrow> pyval list \<Rightarrow> 's \<Rightarrow> (error + pyval) list \<times> 's" where
  "call_seq ds [] s = ([], s)"
| "call_seq ds (key # keys) s =
     (case query_item ds key s of
        (r, s') \<Rightarrow> (case call_seq ds keys s' of (rs, s'') \<Rightarrow> (r # rs, s'')))"

text \<open>\<open>DictDataset\<close>: the state-free dataset over a dict.\<close>

function (sequential) recursive_equality :: "pyval \<Rightarrow> pyval \<Rightarrow> bool" where
  "recursive_equality (PTuple a) (PTuple b) =
     (length a = length b \<and> (\<forall>(a', b') \<in> set (zip a b). recursive_equality a' b'))"
| "recursive_equality (PDict a) (PDict b) =
     (set (map fst a) = set (map fst b)
      \<and> (\<forall>key \<in> set (map fst a).
            case (map_of a key, map_of b key) of
              (Some a', Some b') \<Rightarrow> recursive_equality a' b'
            | _ \<Rightarrow> False))"
| "recursive_equality a b = (a = b)"
  by pat_completeness auto

lemma size_tuple_member: "x \<in> set xs \<Longrightarrow> size x < size (PTuple xs)"
  by (induction xs) auto

lemma size_dict_value: "map_of d k = Some v \<Longrightarrow> size v < size (PDict d)"
  by (induction d) (auto split: if_splits)

termination recursive_equality
  apply (relation "measure (\<lambda>p. size (fst p))")
    apply simp
   apply (auto dest!: set_zip_leftD size_tuple_member)[1]
  apply (auto dest!: size_dict_value [OF sym])
  done

definition DictDataset :: "(pyval \<times> pyval) list \<Rightarrow> unit dataset" where
  "DictDataset dic =
     \<lparr> list_keys = (\<lambda>s. (Inr (map fst dic), s)),
       query_item = (\<lambda>key s. (py_getitem (PDict dic) key, s)),
       items_equality = (\<lambda>a b. Inr (recursive_equality a b)),
       context_map = [] \<rparr>"


section \<open>balanced_batches\<close>

text \<open>
  A generator is what it still has to yield and the exception that ends it; \<open>gen_next\<close> is
  \<open>next(g)\<close>, with \<open>Stop\<close> for the \<open>StopIteration\<close> of an exhausted generator.
\<close>

type_synonym 'a generator = "'a list \<times> error option"

datatype 'a step = Yield 'a | Stop | Raise error

fun gen_next :: "'a generator \<Rightarrow> ('a \<times> 'a generator) step" where
  "gen_next (x # xs, e) = Yield (x, (xs, e))"
| "gen_next ([], None) = Stop"
| "gen_next ([], Some err) = Raise err"

text \<open>
  One step of \<open>zip(*generators)\<close>: \<open>next\<close> is called on the generators from left to right;
  the first that is exhausted ends the zip, the first that raises makes the zip raise.
  \<open>zip()\<close> of no generator at all is exhausted at once.
\<close>

fun next_all :: "'a generator list \<Rightarrow> ('a list \<times> 'a generator list) step" where
  "next_all [] = Yield ([], [])"
| "next_all (g # gs) =
     (case gen_next g of
        Stop \<Rightarrow> Stop
      | Raise e \<Rightarrow> Raise e
      | Yield (x, g') \<Rightarrow>
          (case next_all gs of
             Stop \<Rightarrow> Stop
           | Raise e \<Rightarrow> Raise e
           | Yield (xs, gs') \<Rightarrow> Yield (x # xs, g' # gs')))"

definition zip_next :: "'a generator list \<Rightarrow> ('a list \<times> 'a generator list) step" where
  "zip_next gens = (if gens = [] then Stop else next_all gens)"

definition pending :: "'a generator list \<Rightarrow> nat" where
  "pending gens = sum_list (map (\<lambda>g. length (fst g)) gens)"

lemma next_all_pending:
  "next_all gens = Yield (xs, gens') \<Longrightarrow> gens \<noteq> [] \<Longrightarrow> pending gens' < pending gens"
proof (induction gens arbitrary: xs gens')
  case Nil
  then show ?case by simp
next
  case (Cons g gs)
  obtain ys e where g: "g = (ys, e)" by (cases g)
  show ?case
  proof (cases gs)
    case Nil
    with Cons.prems g show ?thesis
      by (cases ys; cases e) (auto simp: pending_def)
  next
    case (Cons h hs)
    with Cons.prems Cons.IH g show ?thesis
      by (cases ys; cases e) (auto simp: pending_def split: step.splits)
  qed
qed

text \<open>Everything \<open>zip(*generators)\<close> yields, as a generator of tuples.\<close>

function zip_star :: "'a generator list \<Rightarrow> 'a list generator" where
  "zip_star gens =
     (case zip_next gens of
        Stop \<Rightarrow> ([], None)
      | Raise e \<Rightarrow> ([], Some e)
      | Yield (xs, gens') \<Rightarrow> (case zip_star gens' of (ys, e) \<Rightarrow> (xs # ys, e)))"
  by pat_completeness auto

termination zip_star
  apply (relation "measure pending")
   apply simp
  apply (auto simp: zip_next_def split: if_splits dest: next_all_pending)
  done

declare zip_star.simps [simp del]

text \<open>
  An exception that leaves the body of a generator function is passed on as it is, but for
  \<open>StopIteration\<close>, which the interpreter turns into \<open>RuntimeError\<close>.
\<close>

definition generator_raise :: "error \<Rightarrow> error" where
  "generator_raise e = (if e = StopIteration then RuntimeError else e)"

text \<open>
  The body of \<open>for parallel in zip(*batched_keys)\<close>, over the tuples the zip yields.  The
  result is the batches yielded, the exception that ended the generator, if any, and the
  state.  \<open>Xs, Ys = self.query(...)\<close> raises \<open>ValueError\<close> unless the batch has two arrays.
\<close>

fun balanced_loop ::
  "'s dataset \<Rightarrow> int \<Rightarrow> bool \<Rightarrow> pyval list list list \<Rightarrow> 's
     \<Rightarrow> (pyval list \<times> pyval list) list \<times> error option \<times> 's" where
  "balanced_loop ds batch_size wrap [] s = ([], None, s)"
| "balanced_loop ds batch_size wrap (parallel # rest) s =
     (if parallel = [] then ([], Some ValueError, s)
      else
        (let min_length = Min (set (map length parallel));
             parallel' = (if int min_length \<noteq> batch_size
                          then map (\<lambda>p. slice_to p (int min_length)) parallel
                          else parallel)
         in case query ds (concat parallel') wrap s of
              (Inl e, s') \<Rightarrow> ([], Some (generator_raise e), s')
            | (Inr arrays, s') \<Rightarrow>
                (case arrays of
                   [Xs, Ys] \<Rightarrow>
                     (case balanced_loop ds batch_size wrap rest s' of
                        (batches, e, s'') \<Rightarrow> ((Xs, Ys) # batches, e, s''))
                 | _ \<Rightarrow> ([], Some ValueError, s'))))"

text \<open>\<open>Dataset.balanced_batches\<close>.  Integer division by \<open>len(split_keys) = 0\<close> raises.\<close>

definition balanced_batches ::
  "'s dataset \<Rightarrow> pyval list list \<Rightarrow> int \<Rightarrow> bool \<Rightarrow> 's
     \<Rightarrow> (pyval list \<times> pyval list) list \<times> error option \<times> 's" where
  "balanced_batches ds split_keys batch_size wrap s =
     (if length split_keys = 0 then ([], Some ZeroDivisionError, s)
      else
        (let sub_sizes = batch_size div int (length split_keys) in
         if sub_sizes * int (length split_keys) \<noteq> batch_size then ([], Some AssertionError, s)
         else
           (let batched_keys = map (\<lambda>keys. chunkify keys sub_sizes) split_keys in
            case zip_star batched_keys of
              (parallels, zip_error) \<Rightarrow>
                (case balanced_loop ds batch_size wrap parallels s of
                   (batches, None, s') \<Rightarrow> (batches, zip_error, s')
                 | (batches, Some e, s') \<Rightarrow> (batches, Some e, s')))))"

text \<open>
  The key lists that the specification asks \<open>balanced_batches\<close> to pass to \<open>query\<close>: each
  group is cut into chunks of \<open>batch_size / groups\<close> keys, iteration \<open>t\<close> takes chunk \<open>t\<close> of
  every group, cuts each to the length of the shortest of them, and concatenates them in
  group order; the iterations end with the group that has the fewest chunks.
\<close>

definition chunk_at :: "nat \<Rightarrow> nat \<Rightarrow> 'a list \<Rightarrow> 'a list" where
  "chunk_at n t g = take n (drop (t * n) g)"

definition chunk_count :: "nat \<Rightarrow> 'a list \<Rightarrow> nat" where
  "chunk_count n g = (if g = [] then 1 else (length g + n - 1) div n)"

definition shortest_chunk :: "nat \<Rightarrow> nat \<Rightarrow> 'a list list \<Rightarrow> nat" where
  "shortest_chunk n t groups = Min (set (map (\<lambda>g. length (chunk_at n t g)) groups))"

definition expected_key_lists :: "'a list list \<Rightarrow> int \<Rightarrow> 'a list list" where
  "expected_key_lists groups batch_size =
     (if groups = [] then []
      else
        (let n = nat (batch_size div int (length groups))
         in map (\<lambda>t. concat (map (\<lambda>g. take (shortest_chunk n t groups) (chunk_at n t g)) groups))
              [0..<Min (set (map (chunk_count n) groups))]))"

text \<open>Batches assembled by \<open>query\<close> from a list of key lists, one after the other.\<close>

fun query_each ::
  "'s dataset \<Rightarrow> bool \<Rightarrow> pyval list list \<Rightarrow> 's
     \<Rightarrow> (pyval list \<times> pyval list) list \<times> error option \<times> 's" where
  "query_each ds wrap [] s = ([], None, s)"
| "query_each ds wrap (keys # rest) s =
     (case query ds keys wrap s of
        (Inl e, s') \<Rightarrow> ([], Some (generator_raise e), s')
      | (Inr arrays, s') \<Rightarrow>
          (case arrays of
             [Xs, Ys] \<Rightarrow>
               (case query_each ds wrap rest s' of
                  (batches, e, s'') \<Rightarrow> ((Xs, Ys) # batches, e, s''))
           | _ \<Rightarrow> ([], Some ValueError, s')))"

section \<open>The caching wrappers\<close>

text \<open>
  \<open>CacheLastDataset\<close>.  The object holds \<open>self.cache\<close>, the pair of the key and the item
  last fetched; \<open>after_cache_miss\<close> can be overridden, so it is a parameter: a method that
  sees the object and the inner dataset's state and may raise.  Keys are compared with
  \<open>!=\<close>.
\<close>

type_synonym 's cache_last_state = "(pyval \<times> pyval) \<times> 's"

definition CacheLastDataset_init :: "pyval \<times> pyval" where
  "CacheLastDataset_init = (PNone, PNone)"

definition default_after_cache_miss ::
  "pyval \<Rightarrow> pyval \<Rightarrow> 's cache_last_state \<Rightarrow> (error + unit) \<times> 's cache_last_state" where
  "default_after_cache_miss key item st = (Inr (), st)"

definition CacheLastDataset_query_item ::
  "'s dataset
     \<Rightarrow> (pyval \<Rightarrow> pyval \<Rightarrow> 's cache_last_state \<Rightarrow> (error + unit) \<times> 's cache_last_state)
     \<Rightarrow> pyval \<Rightarrow> 's cache_last_state \<Rightarrow> (error + pyval) \<times> 's cache_last_state" where
  "CacheLastDataset_query_item ds after_cache_miss key st =
     (case st of
        ((cached_key, item), s) \<Rightarrow>
          if key \<noteq> cached_key then
            (case query_item ds key s of
               (Inl e, s') \<Rightarrow> (Inl e, ((cached_key, item), s'))
             | (Inr item', s') \<Rightarrow>
                 (case after_cache_miss key item' ((key, item'), s') of
                    (Inl e, st') \<Rightarrow> (Inl e, st')
                  | (Inr u, st') \<Rightarrow> (Inr item', st')))
          else (Inr item, st))"

text \<open>
  \<open>CachedDataset\<close>.  \<open>self.dataset\<close> is \<open>None\<close> once forgotten; \<open>self.list_keys\<close> is one of
  the two methods \<open>_unforgotten_list_keys\<close> and \<open>_cached_keys\<close>.
\<close>

datatype list_keys_method = Unforgotten_list_keys | Cached_keys

record 's CachedDataset =
  dataset :: "'s dataset option"
  cache :: "(pyval \<times> pyval) list"
  list_keys_method :: list_keys_method

text \<open>\<open>d[k] = v\<close> on a dict: an entry for \<open>k\<close> keeps its place, a new one goes last.\<close>

fun dict_setitem :: "(pyval \<times> pyval) list \<Rightarrow> pyval \<Rightarrow> pyval \<Rightarrow> (pyval \<times> pyval) list" where
  "dict_setitem [] k v = [(k, v)]"
| "dict_setitem ((k', v') # d) k v =
     (if k' = k then (k, v) # d else (k', v') # dict_setitem d k v)"

definition CachedDataset_init :: "'s dataset \<Rightarrow> 's CachedDataset" where
  "CachedDataset_init ds =
     \<lparr> dataset = Some ds, cache = [], list_keys_method = Unforgotten_list_keys \<rparr>"

definition CachedDataset_query_item ::
  "pyval \<Rightarrow> 's CachedDataset \<times> 's \<Rightarrow> (error + pyval) \<times> ('s CachedDataset \<times> 's)" where
  "CachedDataset_query_item key st =
     (case st of
        (self, s) \<Rightarrow>
          if \<not> hashable key then (Inl TypeError, st)
          else
            (let tup = (case map_of (cache self) key of None \<Rightarrow> PNone | Some v \<Rightarrow> v) in
             if tup \<noteq> PNone then (Inr tup, st)
             else
               (case dataset self of
                  None \<Rightarrow> (Inl AttributeError, st)
                | Some ds \<Rightarrow>
                    (case query_item ds key s of
                       (Inl e, s') \<Rightarrow> (Inl e, (self, s'))
                     | (Inr tup', s') \<Rightarrow>
                         (Inr tup', (self\<lparr>cache := dict_setitem (cache self) key tup'\<rparr>, s'))))))"

definition CachedDataset_list_keys ::
  "'s CachedDataset \<times> 's \<Rightarrow> (error + pyval list) \<times> ('s CachedDataset \<times> 's)" where
  "CachedDataset_list_keys st =
     (case st of
        (self, s) \<Rightarrow>
          (case list_keys_method self of
             Cached_keys \<Rightarrow> (Inr (map fst (cache self)), st)
           | Unforgotten_list_keys \<Rightarrow>
               (case dataset self of
                  None \<Rightarrow> (Inl AttributeError, st)
                | Some ds \<Rightarrow> (case list_keys ds s of (r, s') \<Rightarrow> (r, (self, s'))))))"

text \<open>\<open>for key in self.dataset.list_keys(): self.query_item(key)\<close>.\<close>

fun fill_loop ::
  "pyval list \<Rightarrow> 's CachedDataset \<times> 's \<Rightarrow> error option \<times> ('s CachedDataset \<times> 's)" where
  "fill_loop [] st = (None, st)"
| "fill_loop (key # keys) st =
     (case CachedDataset_query_item key st of
        (Inl e, st') \<Rightarrow> (Some e, st')
      | (Inr tup, st') \<Rightarrow> fill_loop keys st')"

definition fill_forget ::
  "'s CachedDataset \<times> 's \<Rightarrow> (error + unit) \<times> ('s CachedDataset \<times> 's)" where
  "fill_forget st =
     (case st of
        (self, s) \<Rightarrow>
          (case dataset self of
             None \<Rightarrow> (Inl AttributeError, st)
           | Some ds \<Rightarrow>
               (case list_keys ds s of
                  (Inl e, s') \<Rightarrow> (Inl e, (self, s'))
                | (Inr keys, s') \<Rightarrow>
                    (case fill_loop keys (self, s') of
                       (Some e, st') \<Rightarrow> (Inl e, st')
                     | (None, (self', s'')) \<Rightarrow>
                         (Inr (), (self'\<lparr>list_keys_method := Cached_keys, dataset := None\<rparr>,
                                   s''))))))"

text \<open>
  \<open>_ListKeyWrapper\<close>: \<open>list_keys\<close> passes the inner enumeration through \<open>wrapper\<close>,
  \<open>query_item\<close> is the inner one.
\<close>

definition ListKeyWrapper :: "'s dataset \<Rightarrow> (pyval list \<Rightarrow> pyval list) \<Rightarrow> 's dataset" where
  "ListKeyWrapper ds wrapper =
     ds\<lparr> list_keys := (\<lambda>s. case list_keys ds s of
                              (Inl e, s') \<Rightarrow> (Inl e, s')
                            | (Inr keys, s') \<Rightarrow> (Inr (wrapper keys), s')) \<rparr>"

section \<open>Files and the pickle library\<close>

text \<open>
  A file is the sequence of its bytes.  An open file object has the name it was opened
  under, its content and its position; what is written goes to the content of the object and
  reaches the file system when the object is closed.
\<close>

type_synonym byte = nat

record file_object =
  name :: string
  data :: "byte list"
  position :: nat

definition seek :: "file_object \<Rightarrow> nat \<Rightarrow> file_object" where
  "seek f pos = f\<lparr>position := pos\<rparr>"

text \<open>\<open>f.write(bs)\<close>: the bytes replace those at the position and extend the file at its
  end; a position beyond the end leaves a gap of zero bytes.\<close>

definition file_write :: "file_object \<Rightarrow> byte list \<Rightarrow> file_object" where
  "file_write f bs =
     f\<lparr>data := take (position f) (data f @ replicate (position f - length (data f)) 0)
                  @ bs @ drop (position f + length bs) (data f),
        position := position f + length bs\<rparr>"

text \<open>
  The pickle library is a parameter.  A \<open>Pickler\<close> and an \<open>Unpickler\<close> each keep a memo:
  the objects met since the memo was created or last cleared, in the order in which they
  were put there.  A call of \<open>dump\<close> or \<open>load\<close> starts from the memo that the calls before
  it have left and leaves its own; neither clears it.  \<open>pickle_dump\<close> gives the bytes of an
  object and the memo afterwards, or the exception raised for an object that cannot be
  pickled; \<open>pickle_load\<close> reads one object from the head of a byte sequence and tells how
  many bytes it took and what the memo is afterwards.
\<close>

type_synonym memo = "pyval list"

record pickle =
  pickle_dump :: "memo \<Rightarrow> pyval \<Rightarrow> error + byte list \<times> memo"
  pickle_load :: "memo \<Rightarrow> byte list \<Rightarrow> error + pyval \<times> nat \<times> memo"

text \<open>\<open>pickler.dump(obj)\<close> on the pickler of a file object, with the pickler's memo.\<close>

definition pickler_dump ::
  "pickle \<Rightarrow> file_object \<Rightarrow> memo \<Rightarrow> pyval \<Rightarrow> error option \<times> file_object \<times> memo" where
  "pickler_dump P f m obj =
     (case pickle_dump P m obj of
        Inl e \<Rightarrow> (Some e, f, m)
      | Inr (bs, m') \<Rightarrow> (None, file_write f bs, m'))"

text \<open>
  \<open>unpickler.load()\<close> on the unpickler of a file object, with the unpickler's memo:
  \<open>EOFError\<close> when nothing is left at the position.  A load that raises is taken to leave
  the position and the memo as they were.
\<close>

definition unpickler_load ::
  "pickle \<Rightarrow> file_object \<Rightarrow> memo \<Rightarrow> (error + pyval) \<times> file_object \<times> memo" where
  "unpickler_load P f m =
     (if drop (position f) (data f) = [] then (Inl EOFError, f, m)
      else
        (case pickle_load P m (drop (position f) (data f)) of
           Inl e \<Rightarrow> (Inl e, f, m)
         | Inr (obj, n, m') \<Rightarrow> (Inr obj, f\<lparr>position := position f + n\<rparr>, m')))"

section \<open>PickledDataset\<close>

text \<open>
  The loop of \<open>PickledDataset.create\<close>: \<open>index[key] = file_handler.tell()\<close>, then the item is
  queried and dumped, and \<open>pickler.memo.clear()\<close> leaves the empty memo to the next dump.
  The file object is changed in place, so it is returned also when an exception ends the
  loop.
\<close>

fun create_loop ::
  "pickle \<Rightarrow> 's dataset \<Rightarrow> pyval list \<Rightarrow> (pyval \<times> pyval) list \<Rightarrow> file_object \<Rightarrow> memo \<Rightarrow> 's
     \<Rightarrow> (error + (pyval \<times> pyval) list \<times> memo) \<times> file_object \<times> 's" where
  "create_loop P ds [] index f m s = (Inr (index, m), f, s)"
| "create_loop P ds (key # keys) index f m s =
     (if \<not> hashable key then (Inl TypeError, f, s)
      else
        (let index' = dict_setitem index key (PInt (int (position f))) in
         case query_item ds key s of
           (Inl e, s') \<Rightarrow> (Inl e, f, s')
         | (Inr obj, s') \<Rightarrow>
             (case pickler_dump P f m obj of
                (Some e, f', m') \<Rightarrow> (Inl e, f', s')
              | (None, f', m') \<Rightarrow> create_loop P ds keys index' f' [] s')))"

text \<open>
  \<open>PickledDataset.create(dataset, file_handler, keys)\<close> on a file object.  The header is
  written first as the placeholder \<open>1 << 65\<close> and last as \<open>index_location ^ (1 << 65)\<close>.
  One pickler, created with the empty memo, makes all the dumps; the memo is cleared after
  each item and nowhere else, so the context is dumped with the memo that the index has
  left.
\<close>

definition create ::
  "pickle \<Rightarrow> 's dataset \<Rightarrow> file_object \<Rightarrow> pyval list option \<Rightarrow> 's \<Rightarrow> error option \<times> file_object \<times> 's" where
  "create P ds file_handler keys s =
     (case pickler_dump P (seek file_handler 0) [] (PInt (2 ^ 65)) of
        (Some e, f, m) \<Rightarrow> (Some e, f, s)
      | (None, f, m) \<Rightarrow>
          (case (case keys of None \<Rightarrow> list_keys ds s | Some ks \<Rightarrow> (Inr ks, s)) of
             (Inl e, s') \<Rightarrow> (Some e, f, s')
           | (Inr ks, s') \<Rightarrow>
               (case create_loop P ds ks [] f m s' of
                  (Inl e, f', s'') \<Rightarrow> (Some e, f', s'')
                | (Inr (index, m'), f', s'') \<Rightarrow>
                    (let index_location = position f' in
                     case pickler_dump P f' m' (PDict index) of
                       (Some e, f'', m'') \<Rightarrow> (Some e, f'', s'')
                     | (None, f'', m'') \<Rightarrow>
                         (case (if context_map ds \<noteq> []
                                then pickler_dump P f'' m'' (PDict (context_map ds))
                                else (None, f'', m'')) of
                            (Some e, f3, m3) \<Rightarrow> (Some e, f3, s'')
                          | (None, f3, m3) \<Rightarrow>
                              (case pickler_dump P (seek f3 0) m3
                                      (PInt (int index_location XOR 2 ^ 65)) of
                                 (eo, f4, m4) \<Rightarrow> (eo, f4, s'')))))))"

text \<open>
  An opened store.  \<open>unpickler_memo\<close> is the memo of \<open>self.unpickler\<close>, the one unpickler
  that the constructor creates and that every later load uses.  With \<open>offset_keys\<close> the
  constructor replaces \<open>list_keys\<close> by \<open>_offset_list_keys\<close> and \<open>query_item\<close> by
  \<open>_default_query_item\<close>, which it already is: the store has one \<open>query_item\<close>.
\<close>

record PickledDataset =
  file_handler :: file_object
  offset_keys :: bool
  index :: pyval
  stored_context :: "pyval option"
  unpickler_memo :: memo

text \<open>
  \<open>PickledDataset.__init__\<close> on a file object: the header, the index and the context, if
  there is one, are loaded one after the other by the new unpickler, and the store keeps the
  unpickler with the memo that these loads have left.
\<close>

definition PickledDataset_init :: "pickle \<Rightarrow> file_object \<Rightarrow> bool \<Rightarrow> error + PickledDataset" where
  "PickledDataset_init P f offset =
     (case unpickler_load P (seek f 0) [] of
        (Inl e, f1, m1) \<Rightarrow> Inl e
      | (Inr header, f1, m1) \<Rightarrow>
          (case header of
             PInt h \<Rightarrow>
               (let index_location = h XOR 2 ^ 65 in
                if index_location < 0 then Inl ValueError
                else
                  (case unpickler_load P (seek f1 (nat index_location)) m1 of
                     (Inl e, f2, m2) \<Rightarrow> Inl e
                   | (Inr idx, f2, m2) \<Rightarrow>
                       (case unpickler_load P f2 m2 of
                          (Inl e, f3, m3) \<Rightarrow>
                            (if e = EOFError
                             then Inr \<lparr>file_handler = f3, offset_keys = offset, index = idx,
                                       stored_context = None, unpickler_memo = m3\<rparr>
                             else Inl e)
                        | (Inr c, f3, m3) \<Rightarrow>
                            Inr \<lparr>file_handler = f3, offset_keys = offset, index = idx,
                                  stored_context = Some c, unpickler_memo = m3\<rparr>)))
           | _ \<Rightarrow> Inl TypeError))"

text \<open>
  \<open>_default_query_item\<close>: \<open>seek(self.index[key])\<close>, then one \<open>load\<close> with the memo as the
  unpickler holds it, then \<open>self.unpickler.memo.clear()\<close>.  An exception of the load leaves
  the method before the memo is cleared.
\<close>

definition PickledDataset_query_item ::
  "pickle \<Rightarrow> pyval \<Rightarrow> PickledDataset \<Rightarrow> (error + pyval) \<times> PickledDataset" where
  "PickledDataset_query_item P key self =
     (case py_getitem (index self) key of
        Inl e \<Rightarrow> (Inl e, self)
      | Inr (PInt off) \<Rightarrow>
          (if off < 0 then (Inl ValueError, self)
           else
             (case unpickler_load P (seek (file_handler self) (nat off)) (unpickler_memo self) of
                (Inl e, f, m) \<Rightarrow> (Inl e, self\<lparr>file_handler := f, unpickler_memo := m\<rparr>)
              | (Inr ret, f, m) \<Rightarrow> (Inr ret, self\<lparr>file_handler := f, unpickler_memo := []\<rparr>)))
      | Inr _ \<Rightarrow> (Inl TypeError, self))"

definition PickledDataset_list_keys :: "PickledDataset \<Rightarrow> error + pyval list" where
  "PickledDataset_list_keys self =
     (case index self of
        PDict d \<Rightarrow> Inr (if offset_keys self then map snd d else map fst d)
      | _ \<Rightarrow> Inl AttributeError)"

section \<open>pickle_or_load\<close>

text \<open>
  The world of \<open>pickle_or_load\<close>: the state of the dataset, the files by path, the paths
  at which a file can be opened for writing, and the warnings written to \<open>sys.stderr\<close>.
\<close>

datatype warning =
    Could_not_check string
  | Out_of_date string "diff_reason option"
  | Just_created

record 's world =
  dstate :: 's
  files :: "string \<Rightarrow> byte list option"
  can_create :: "string \<Rightarrow> bool"
  stderr :: "warning list"

text \<open>\<open>except Exception\<close> does not catch what derives from \<open>BaseException\<close> only.\<close>

fun is_Exception :: "error \<Rightarrow> bool" where
  "is_Exception KeyboardInterrupt = False"
| "is_Exception e = True"

text \<open>\<open>if before_pickling is not None: before_pickling()\<close>.\<close>

definition run_before ::
  "('s world \<Rightarrow> error option \<times> 's world) option \<Rightarrow> 's world \<Rightarrow> error option \<times> 's world" where
  "run_before before_pickling w =
     (case before_pickling of None \<Rightarrow> (None, w) | Some callback \<Rightarrow> callback w)"

text \<open>
  The block under \<open>if not was_existing\<close>.  When \<open>open\<close> raises, \<open>file\<close> is still \<open>None\<close> and
  nothing is removed.  Otherwise the file exists from then on; leaving the \<open>with\<close> block
  closes it, also on an exception, and the handler removes it before it raises again.
\<close>

definition create_new ::
  "pickle \<Rightarrow> 's dataset \<Rightarrow> string \<Rightarrow> pyval list option
     \<Rightarrow> ('s world \<Rightarrow> error option \<times> 's world) option \<Rightarrow> 's world \<Rightarrow> error option \<times> 's world" where
  "create_new P ds path keys before_pickling w =
     (case run_before before_pickling w of
        (Some e, w1) \<Rightarrow> (Some e, w1)
      | (None, w1) \<Rightarrow>
          (if \<not> can_create w1 path then (Some OSError, w1)
           else
             (let w2 = w1\<lparr>files := (files w1)(path \<mapsto> [])\<rparr> in
              case create P ds \<lparr>name = path, data = [], position = 0\<rparr> keys (dstate w2) of
                (eo, f, s') \<Rightarrow>
                  (let w3 = w2\<lparr>dstate := s', files := (files w2)(path \<mapsto> data f)\<rparr> in
                   case eo of
                     None \<Rightarrow> (None, w3)
                   | Some e \<Rightarrow>
                       (if files w3 path = None then (Some OSError, w3)
                        else (Some e, w3\<lparr>files := (files w3)(path := None)\<rparr>))))))"

text \<open>\<open>next(chunkify(keys, check_first_n_items))\<close>.\<close>

definition first_chunk :: "pyval list \<Rightarrow> int \<Rightarrow> error + pyval list" where
  "first_chunk keys n =
     (case chunkify keys n of
        (c # cs, e) \<Rightarrow> Inr c
      | ([], Some e) \<Rightarrow> Inl e
      | ([], None) \<Rightarrow> Inl StopIteration)"

text \<open>
  \<open>except KeyError as exc: raise DiffReason("Pickled dataset does not contain key " +
  str(exc))\<close>, and the reason that \<open>except DiffReason as r\<close> catches.
\<close>

fun missing_key_reason :: "error \<Rightarrow> error" where
  "missing_key_reason (KeyError x) = DiffReason (Does_not_contain_key x)"
| "missing_key_reason e = e"

fun caught_reason :: "error \<Rightarrow> diff_reason option" where
  "caught_reason (DiffReason r) = Some r"
| "caught_reason e = None"

text \<open>
  The staleness check \<open>for k in chunk\<close>.  The result is the exception that left the loop,
  if any, the opened store and the world.  An exception of the comparison that is not a
  \<open>DiffReason\<close> is raised again, after a warning when \<open>except Exception\<close> catches it.
\<close>

fun check_items ::
  "pickle \<Rightarrow> 's dataset \<Rightarrow> string \<Rightarrow> bool \<Rightarrow> pyval list \<Rightarrow> PickledDataset \<Rightarrow> 's world
     \<Rightarrow> error option \<times> PickledDataset \<times> 's world" where
  "check_items P ds path was_existing [] opened w = (None, opened, w)"
| "check_items P ds path was_existing (k # chunk) opened w =
     (case query_item ds k (dstate w) of
        (Inl e, s') \<Rightarrow> (Some e, opened, w\<lparr>dstate := s'\<rparr>)
      | (Inr true_item, s') \<Rightarrow>
          (let w1 = w\<lparr>dstate := s'\<rparr> in
           case PickledDataset_query_item P k opened of
             (r, opened') \<Rightarrow>
               (let compared =
                      (case r of
                         Inl e \<Rightarrow> Inl (missing_key_reason e)
                       | Inr loaded_item \<Rightarrow> items_equality ds true_item loaded_item);
                    mismatch = (\<lambda>reason.
                      (None, opened',
                       w1\<lparr>stderr := stderr w1 @ [Out_of_date path reason]
                                      @ (if \<not> was_existing then [Just_created] else [])\<rparr>))
                in case compared of
                     Inl e \<Rightarrow>
                       (case caught_reason e of
                          Some reason \<Rightarrow> mismatch (Some reason)
                        | None \<Rightarrow>
                            (if is_Exception e
                             then (Some e, opened',
                                   w1\<lparr>stderr := stderr w1 @ [Could_not_check path]\<rparr>)
                             else (Some e, opened', w1)))
                   | Inr equality \<Rightarrow>
                       (if \<not> equality then mismatch None
                        else check_items P ds path was_existing chunk opened' w1))))"

text \<open>
  \<open>pickle_or_load(dataset, path, keys, check_first_n_items, overwrite, before_pickling)\<close>
  for a \<open>path\<close> that is a string.  The branch for a \<open>path\<close> that is an open file is not
  modelled, nor is the registry \<open>_open_pickles\<close>, by which \<open>_open_once\<close> and \<open>_close\<close> close
  the file object that an earlier call has left open on the path.
\<close>

definition pickle_or_load ::
  "pickle \<Rightarrow> 's dataset \<Rightarrow> string \<Rightarrow> pyval list option \<Rightarrow> int \<Rightarrow> bool
     \<Rightarrow> ('s world \<Rightarrow> error option \<times> 's world) option \<Rightarrow> 's world
     \<Rightarrow> (error + PickledDataset) \<times> 's world" where
  "pickle_or_load P ds path keys check_first_n_items overwrite before_pickling w =
     (let existed = (files w path \<noteq> None);
          w0 = (if overwrite \<and> existed then w\<lparr>files := (files w)(path := None)\<rparr> else w);
          was_existing = (if overwrite \<and> existed then False else existed)
      in case (if \<not> was_existing then create_new P ds path keys before_pickling w0
               else (None, w0)) of
           (Some e, w1) \<Rightarrow> (Inl e, w1)
         | (None, w1) \<Rightarrow>
             (case files w1 path of
                None \<Rightarrow> (Inl OSError, w1)
              | Some bytes \<Rightarrow>
                  (case PickledDataset_init P \<lparr>name = path, data = bytes, position = 0\<rparr> False of
                     Inl e \<Rightarrow> (Inl e, w1)
                   | Inr opened_dataset \<Rightarrow>
                       (case (case keys of
                                None \<Rightarrow> list_keys ds (dstate w1)
                              | Some ks \<Rightarrow> (Inr ks, dstate w1)) of
                          (Inl e, s') \<Rightarrow> (Inl e, w1\<lparr>dstate := s'\<rparr>)
                        | (Inr ks, s') \<Rightarrow>
                            (case first_chunk ks check_first_n_items of
                               Inl e \<Rightarrow> (Inl e, w1\<lparr>dstate := s'\<rparr>)
                             | Inr chunk \<Rightarrow>
                                 (case check_items P ds path was_existing chunk opened_dataset
                                         (w1\<lparr>dstate := s'\<rparr>) of
                                    (Some e, opened', w2) \<Rightarrow> (Inl e, w2)
                                  | (None, opened', w2) \<Rightarrow> (Inr opened', w2)))))))"

section \<open>A model of the pickle library\<close>

text \<open>
  A small self-delimiting serialisation with a memo, used where a concrete pickle library is
  needed.  It works as the library does from protocol 4 on, the default of \<open>Pickler(file)\<close>
  since Python 3.8.  The pickler puts a string, a non-empty tuple and a dict into its memo
  (a dict before its entries are saved, a tuple after its elements) and writes a reference
  to the memo in place of an object that is in it already; integers and \<open>None\<close> are never
  put there.  The unpickler puts each such object at the index \<open>len(memo)\<close> and reads a
  reference by that index, without a check of where the entry came from.

  The library's memo goes by the identity of objects, which the values of the embedding do
  not have: equal values are taken to be one object, as the two components of an item
  \<open>(s, s)\<close> are.

  The bytes of an object are a tag and the payload.  An integer is its sign and its
  absolute value in two parts, the low 64 bits and the rest; tuples and dicts give the
  number of their entries; a reference gives its index.
\<close>

text \<open>\<open>self.memo.get(id(obj))\<close> of the pickler: the index under which the object is kept.\<close>

fun memo_get :: "memo \<Rightarrow> pyval \<Rightarrow> nat option" where
  "memo_get [] obj = None"
| "memo_get (x # m) obj = (if x = obj then Some 0 else map_option Suc (memo_get m obj))"

function (sequential) save :: "memo \<Rightarrow> pyval \<Rightarrow> byte list \<times> memo"
  and save_all :: "memo \<Rightarrow> pyval list \<Rightarrow> byte list \<times> memo"
  and save_items :: "memo \<Rightarrow> (pyval \<times> pyval) list \<Rightarrow> byte list \<times> memo"
where
  "save m PNone = ([0], m)"
| "save m (PInt i) =
     (if 0 \<le> i then ([1, nat (i mod 2 ^ 64), nat (i div 2 ^ 64)], m)
      else ([2, nat (- i mod 2 ^ 64), nat (- i div 2 ^ 64)], m))"
| "save m (PStr s) =
     (case memo_get m (PStr s) of
        Some i \<Rightarrow> ([6, i], m)
      | None \<Rightarrow> ([3, length s] @ map of_char s, m @ [PStr s]))"
| "save m (PTuple xs) =
     (if xs = [] then ([4, 0], m)
      else
        (case memo_get m (PTuple xs) of
           Some i \<Rightarrow> ([6, i], m)
         | None \<Rightarrow>
             (case save_all m xs of (bs, m') \<Rightarrow> ([4, length xs] @ bs, m' @ [PTuple xs]))))"
| "save m (PDict d) =
     (case memo_get m (PDict d) of
        Some i \<Rightarrow> ([6, i], m)
      | None \<Rightarrow>
          (case save_items (m @ [PDict d]) d of (bs, m') \<Rightarrow> ([5, length d] @ bs, m')))"
| "save_all m [] = ([], m)"
| "save_all m (x # xs) =
     (case save m x of (b, m') \<Rightarrow> (case save_all m' xs of (bs, m'') \<Rightarrow> (b @ bs, m'')))"
| "save_items m [] = ([], m)"
| "save_items m ((k, v) # d) =
     (case save m k of
        (bk, m') \<Rightarrow>
          (case save m' v of
             (bv, m'') \<Rightarrow>
               (case save_items m'' d of (bs, m''') \<Rightarrow> (bk @ bv @ bs, m'''))))"
  by pat_completeness auto

termination save
  by (relation "measure (\<lambda>x. case x of
                   Inl (m, obj) \<Rightarrow> size obj
                 | Inr (Inl (m, xs)) \<Rightarrow> size_list size xs
                 | Inr (Inr (m, d)) \<Rightarrow> size_list (size_prod size size) d)")
    simp_all

text \<open>
  Loading: a dict is in the memo from the moment it is created, empty, and is the same
  object when its entries have been set.
\<close>

fun load :: "nat \<Rightarrow> memo \<Rightarrow> byte list \<Rightarrow> (pyval \<times> byte list \<times> memo) option"
  and load_all :: "nat \<Rightarrow> nat \<Rightarrow> memo \<Rightarrow> byte list \<Rightarrow> (pyval list \<times> byte list \<times> memo) option"
  and load_items ::
    "nat \<Rightarrow> nat \<Rightarrow> memo \<Rightarrow> byte list \<Rightarrow> ((pyval \<times> pyval) list \<times> byte list \<times> memo) option"
where
  "load 0 m bs = None"
| "load (Suc fuel) m [] = None"
| "load (Suc fuel) m (t # bs) =
     (if t = 0 then Some (PNone, bs, m)
      else if t = 1 then
        (case bs of lo # hi # r \<Rightarrow> Some (PInt (int lo + 2 ^ 64 * int hi), r, m) | _ \<Rightarrow> None)
      else if t = 2 then
        (case bs of lo # hi # r \<Rightarrow> Some (PInt (- (int lo + 2 ^ 64 * int hi)), r, m) | _ \<Rightarrow> None)
      else if t = 3 then
        (case bs of
           n # r \<Rightarrow>
             (if n \<le> length r
              then Some (PStr (map char_of (take n r)), drop n r,
                         m @ [PStr (map char_of (take n r))])
              else None)
         | _ \<Rightarrow> None)
      else if t = 4 then
        (case bs of
           n # r \<Rightarrow>
             (case load_all fuel n m r of
                None \<Rightarrow> None
              | Some (xs, r', m') \<Rightarrow>
                  Some (PTuple xs, r', if xs = [] then m' else m' @ [PTuple xs]))
         | _ \<Rightarrow> None)
      else if t = 5 then
        (case bs of
           n # r \<Rightarrow>
             (case load_items fuel n (m @ [PDict []]) r of
                None \<Rightarrow> None
              | Some (d, r', m') \<Rightarrow> Some (PDict d, r', m'[length m := PDict d]))
         | _ \<Rightarrow> None)
      else if t = 6 then
        (case bs of
           i # r \<Rightarrow> (if i < length m then Some (m ! i, r, m) else None)
         | _ \<Rightarrow> None)
      else None)"
| "load_all fuel 0 m bs = Some ([], bs, m)"
| "load_all fuel (Suc n) m bs =
     (case load fuel m bs of
        None \<Rightarrow> None
      | Some (x, r, m') \<Rightarrow>
          (case load_all fuel n m' r of
             None \<Rightarrow> None
           | Some (xs, r', m'') \<Rightarrow> Some (x # xs, r', m'')))"
| "load_items fuel 0 m bs = Some ([], bs, m)"
| "load_items fuel (Suc n) m bs =
     (case load fuel m bs of
        None \<Rightarrow> None
      | Some (k, r, m') \<Rightarrow>
          (case load fuel m' r of
             None \<Rightarrow> None
           | Some (v, r', m'') \<Rightarrow>
               (case load_items fuel n m'' r' of
                  None \<Rightarrow> None
                | Some (d, r'', m''') \<Rightarrow> Some ((k, v) # d, r'', m'''))))"

definition memo_pickle :: pickle where
  "memo_pickle =
     \<lparr> pickle_dump = (\<lambda>m obj. Inr (save m obj)),
       pickle_load = (\<lambda>m bs. case load (Suc (length bs)) m bs of
                                None \<Rightarrow> Inl UnpicklingError
                              | Some (obj, r, m') \<Rightarrow> Inr (obj, length bs - length r, m')) \<rparr>"

section \<open>What the round trip asks of the pickle library\<close>

text \<open>
  An unpickler whose memo is the memo that the pickler had loads back what the pickler
  dumped, whatever follows the bytes, and is left with the memo that the pickler is left
  with; the bytes of an object are not empty.
\<close>

definition round_trips :: "pickle \<Rightarrow> bool" where
  "round_trips P \<longleftrightarrow>
     (\<forall>m obj bs m' rest. pickle_dump P m obj = Inr (bs, m')
        \<longrightarrow> bs \<noteq> [] \<and> pickle_load P m (bs @ rest) = Inr (obj, length bs, m'))"

text \<open>An integer is dumped the same with every memo and is not put into the memo.\<close>

definition ints_unmemoised :: "pickle \<Rightarrow> bool" where
  "ints_unmemoised P \<longleftrightarrow>
     (\<forall>m i bs m'. pickle_dump P m (PInt i) = Inr (bs, m')
        \<longrightarrow> m' = m \<and> pickle_dump P [] (PInt i) = Inr (bs, []))"

text \<open>The header has one width for every trailer offset below \<open>2 ^ 65\<close>.\<close>

definition fixed_width_header :: "pickle \<Rightarrow> bool" where
  "fixed_width_header P \<longleftrightarrow>
     (\<forall>x bs bs' m m'. 0 \<le> x \<and> x < 2 ^ 65 \<and> pickle_dump P [] (PInt (2 ^ 65)) = Inr (bs, m)
          \<and> pickle_dump P [] (PInt (x XOR 2 ^ 65)) = Inr (bs', m')
        \<longrightarrow> length bs' = length bs)"

text \<open>
  An index entry is sound for a file content when its offset is not inside the header and
  the bytes at the offset are the pickle, made with the empty memo, of the item that the
  dict holds for the key.
\<close>

definition stored ::
  "pickle \<Rightarrow> (pyval \<times> pyval) list \<Rightarrow> nat \<Rightarrow> byte list \<Rightarrow> pyval \<times> pyval \<Rightarrow> bool" where
  "stored P dic H content entry \<longleftrightarrow>
     (\<exists>off v bs m' rest. snd entry = PInt (int off) \<and> H \<le> off
        \<and> py_getitem (PDict dic) (fst entry) = Inr v
        \<and> pickle_dump P [] v = Inr (bs, m') \<and> drop off content = bs @ rest)"

text \<open>
  The memo of a pickler and the memo of an unpickler agree for the objects of size up to
  \<open>n\<close> when they are as long as each other and hold the same object at every index, but
  for the indices at which the pickler holds an object larger than \<open>n\<close>: those are the dicts
  whose entries are being saved, which the unpickler holds unfinished.
\<close>

definition agree :: "nat \<Rightarrow> memo \<Rightarrow> memo \<Rightarrow> bool" where
  "agree n m mu \<longleftrightarrow>
     length mu = length m \<and> (\<forall>i < length m. mu ! i = m ! i \<or> n < size (m ! i))"


section \<open>Properties of chunkify\<close>

lemma chunkify_loop_inv:
  assumes "0 < n" and "length ret = nat n" and "0 \<le> i - offset + 1" and "i - offset + 1 \<le> n"
    and "\<forall>c \<in> set out. int (length c) = n"
  shows "\<exists>chunks. chunkify_loop n es offset ret i out = (chunks, None)
           \<and> chunks \<noteq> []
           \<and> concat chunks = concat out @ take (nat (i - offset + 1)) ret @ es
           \<and> (\<forall>c \<in> set (butlast chunks). int (length c) = n)
           \<and> int (length (last chunks)) \<le> n
           \<and> (last chunks = [] \<longrightarrow> i - offset + 1 = 0 \<and> es = [])"
  using assms
proof (induction es arbitrary: offset ret i out)
  case Nil
  then show ?case by (auto simp: slice_to_def butlast_append)
next
  case (Cons e es)
  let ?m = "i - offset + 1"
  show ?case
  proof (cases "?m = n")
    case True
    let ?ret = "(replicate (nat n) PNone)[0 := e]"
    have step: "chunkify_loop n (e # es) offset ret i out
                  = chunkify_loop n es (offset + n) ?ret (i + 1) (out @ [ret])"
      using True Cons.prems(1) by (simp add: list_setitem_def py_index_def)
    have len: "length ?ret = nat n" by simp
    have "0 \<le> (i + 1) - (offset + n) + 1" "(i + 1) - (offset + n) + 1 \<le> n"
      using True Cons.prems(1) by simp_all
    moreover have "\<forall>c \<in> set (out @ [ret]). int (length c) = n"
      using Cons.prems by auto
    ultimately obtain chunks where
      ch: "chunkify_loop n es (offset + n) ?ret (i + 1) (out @ [ret]) = (chunks, None)"
        "chunks \<noteq> []"
        "concat chunks = concat (out @ [ret])
             @ take (nat ((i + 1) - (offset + n) + 1)) ?ret @ es"
        "\<forall>c \<in> set (butlast chunks). int (length c) = n"
        "int (length (last chunks)) \<le> n"
        "last chunks = [] \<longrightarrow> (i + 1) - (offset + n) + 1 = 0 \<and> es = []"
      using Cons.IH [OF Cons.prems(1) len] by blast
    have one: "(i + 1) - (offset + n) + 1 = 1" using True by simp
    obtain k where k: "nat n = Suc k"
      using Cons.prems(1) by (cases "nat n") simp_all
    have "take (nat 1) ?ret = [e]"
      by (simp add: k)
    then have "concat chunks = concat out @ take (nat ?m) ret @ e # es"
      using ch(3) one True Cons.prems(2) by simp
    moreover have "last chunks \<noteq> []" using ch(6) one by auto
    ultimately show ?thesis using step ch(1,2,4,5) by simp
  next
    case False
    then have lt: "?m < n" using Cons.prems(4) by simp
    let ?ret = "ret[nat ?m := e]"
    have idx: "i + 1 - offset = ?m" by simp
    have step: "chunkify_loop n (e # es) offset ret i out
                  = chunkify_loop n es offset ?ret (i + 1) out"
    proof -
      have "list_setitem ret (i + 1 - offset) e = Inr ?ret"
        unfolding idx using lt Cons.prems(2,3) by (simp add: list_setitem_def py_index_def)
      moreover have "i + 1 - offset \<noteq> n" unfolding idx using False .
      ultimately show ?thesis by (simp add: Let_def)
    qed
    have len: "length ?ret = nat n" using Cons.prems(2) by simp
    have "0 \<le> (i + 1) - offset + 1" "(i + 1) - offset + 1 \<le> n"
      using lt Cons.prems(3) by simp_all
    then obtain chunks where
      ch: "chunkify_loop n es offset ?ret (i + 1) out = (chunks, None)"
        "chunks \<noteq> []"
        "concat chunks = concat out @ take (nat ((i + 1) - offset + 1)) ?ret @ es"
        "\<forall>c \<in> set (butlast chunks). int (length c) = n"
        "int (length (last chunks)) \<le> n"
        "last chunks = [] \<longrightarrow> (i + 1) - offset + 1 = 0 \<and> es = []"
      using Cons.IH [OF Cons.prems(1) len _ _ Cons.prems(5)] by blast
    have "nat ?m < length ret" using lt Cons.prems(2,3) by simp
    then have "take (Suc (nat ?m)) ?ret = take (nat ?m) ret @ [e]"
      by (simp add: take_Suc_conv_app_nth)
    moreover have "nat ((i + 1) - offset + 1) = Suc (nat ?m)"
      using Cons.prems(3) by simp
    ultimately have "concat chunks = concat out @ take (nat ?m) ret @ e # es"
      using ch(3) by simp
    moreover have "last chunks \<noteq> []" using ch(6) Cons.prems(3) by auto
    ultimately show ?thesis using step ch(1,2,4,5) by simp
  qed
qed

text \<open>
  C9.  For every sequence \<open>S\<close> and every chunk size \<open>n > 0\<close>, \<open>chunkify\<close> ends without an
  exception, the chunks it yields concatenate to \<open>S\<close>, every chunk but the last has length
  \<open>n\<close> (the last has at most \<open>n\<close>), and the empty sequence yields the single chunk \<open>[]\<close>.
\<close>

theorem chunkify_correct:
  "0 < n \<Longrightarrow>
     (\<exists>chunks. chunkify S n = (chunks, None)
        \<and> concat chunks = S
        \<and> (\<forall>c \<in> set (butlast chunks). int (length c) = n)
        \<and> int (length (last chunks)) \<le> n)
     \<and> chunkify [] n = ([[]], None)"
proof
  assume n: "0 < n"
  have "\<exists>chunks. chunkify_loop n S 0 (replicate (nat n) PNone) (- 1) [] = (chunks, None)
           \<and> chunks \<noteq> []
           \<and> concat chunks = concat [] @ take (nat (- 1 - 0 + 1)) (replicate (nat n) PNone) @ S
           \<and> (\<forall>c \<in> set (butlast chunks). int (length c) = n)
           \<and> int (length (last chunks)) \<le> n
           \<and> (last chunks = [] \<longrightarrow> - 1 - 0 + 1 = (0::int) \<and> S = [])"
    by (rule chunkify_loop_inv) (use n in simp_all)
  then show "\<exists>chunks. chunkify S n = (chunks, None)
        \<and> concat chunks = S
        \<and> (\<forall>c \<in> set (butlast chunks). int (length c) = n)
        \<and> int (length (last chunks)) \<le> n"
    by (auto simp: chunkify_def)
next
  show "chunkify [] n = ([[]], None)"
    by (simp add: chunkify_def slice_to_def)
qed

theorem chunkify_correct_witness:
  "(0::int) < 5
   \<and> chunkify (map PInt [0, 1, 2, 3, 4, 5, 6, 7, 8, 9, 10, 11]) 5
       = ([map PInt [0, 1, 2, 3, 4], map PInt [5, 6, 7, 8, 9], map PInt [10, 11]], None)
   \<and> chunkify [] 5 = ([[]], None)"
proof -
  have ev: "chunkify (map PInt [0, 1, 2, 3, 4, 5, 6, 7, 8, 9, 10, 11]) 5
       = ([map PInt [0, 1, 2, 3, 4], map PInt [5, 6, 7, 8, 9], map PInt [10, 11]], None)"
    by code_simp
  show ?thesis
    using chunkify_correct [of 5 "map PInt [0, 1, 2, 3, 4, 5, 6, 7, 8, 9, 10, 11]"] ev
    by simp
qed

lemma chunkify_shape:
  assumes "0 < n"
  shows "\<exists>chunks. chunkify S n = (chunks, None) \<and> chunks \<noteq> [] \<and> concat chunks = S
           \<and> (\<forall>c \<in> set (butlast chunks). length c = nat n)
           \<and> length (last chunks) \<le> nat n
           \<and> (last chunks = [] \<longrightarrow> S = [])"
proof -
  have "\<exists>chunks. chunkify_loop n S 0 (replicate (nat n) PNone) (- 1) [] = (chunks, None)
           \<and> chunks \<noteq> []
           \<and> concat chunks = concat [] @ take (nat (- 1 - 0 + 1)) (replicate (nat n) PNone) @ S
           \<and> (\<forall>c \<in> set (butlast chunks). int (length c) = n)
           \<and> int (length (last chunks)) \<le> n
           \<and> (last chunks = [] \<longrightarrow> - 1 - 0 + 1 = (0::int) \<and> S = [])"
    by (rule chunkify_loop_inv) (use assms in simp_all)
  then obtain chunks where ch:
      "chunkify_loop n S 0 (replicate (nat n) PNone) (- 1) [] = (chunks, None)"
      "chunks \<noteq> []" "concat chunks = S"
      "\<forall>c \<in> set (butlast chunks). int (length c) = n"
      "int (length (last chunks)) \<le> n" "last chunks = [] \<longrightarrow> S = []"
    by auto
  have "\<forall>c \<in> set (butlast chunks). length c = nat n" using ch(4) by auto
  moreover have "length (last chunks) \<le> nat n" using ch(5) by simp
  ultimately show ?thesis using ch(1,2,3,6) by (simp add: chunkify_def)
qed

lemma ceil_div_step:
  fixes m n :: nat
  assumes "0 < n"
  shows "(n + m + n - 1) div n = Suc ((m + n - 1) div n)"
proof -
  obtain k where k: "n = Suc k" using assms by (cases n) simp_all
  have "(m + k + n) div n = Suc ((m + k) div n)" using assms by (simp add: div_add_self2)
  then show ?thesis by (simp add: k add.commute)
qed

lemma ceil_div_one:
  fixes m n :: nat
  assumes "0 < m" and "m \<le> n"
  shows "(m + n - 1) div n = 1"
proof -
  obtain j where j: "m = Suc j" using assms(1) by (cases m) simp_all
  have "j < n" using assms(2) j by simp
  then have "(j + n) div n = 1" using assms by (simp add: div_add_self2)
  then show ?thesis by (simp add: j)
qed

lemma chunk_count_append:
  assumes "0 < n" and "length c = n" and "rest \<noteq> []"
  shows "chunk_count n (c @ rest) = Suc (chunk_count n rest)"
proof -
  have "(n + length rest + n - 1) div n = Suc ((length rest + n - 1) div n)"
  proof -
    show ?thesis by (rule ceil_div_step [OF assms(1)])
  qed
  then show ?thesis using assms by (simp add: chunk_count_def)
qed

lemma chunks_unique:
  assumes "0 < n" and "chunks \<noteq> []"
    and "\<forall>c \<in> set (butlast chunks). length c = n"
    and "length (last chunks) \<le> n"
    and "last chunks = [] \<longrightarrow> concat chunks = []"
  shows "chunks = map (\<lambda>t. chunk_at n t (concat chunks)) [0..<chunk_count n (concat chunks)]"
  using assms(2-)
proof (induction chunks)
  case Nil
  then show ?case by simp
next
  case (Cons c cs)
  show ?case
  proof (cases "cs = []")
    case True
    then have "length c \<le> n" using Cons.prems(3) by simp
    moreover have "chunk_count n c = 1"
    proof (cases "c = []")
      case True
      then show ?thesis by (simp add: chunk_count_def)
    next
      case False
      then have "0 < length c" by simp
      then have "(length c + n - 1) div n = 1"
        using \<open>length c \<le> n\<close> by (rule ceil_div_one)
      then show ?thesis using False by (simp add: chunk_count_def)
    qed
    ultimately show ?thesis using True by (simp add: chunk_at_def)
  next
    case False
    then have c: "length c = n" using Cons.prems(2) by simp
    have lastne: "last cs \<noteq> []"
    proof
      assume "last cs = []"
      then have "concat (c # cs) = []" using Cons.prems(4) False by simp
      then show False using c assms(1) by auto
    qed
    then have rest: "concat cs \<noteq> []" using False
      by (metis concat_eq_Nil_conv last_in_set)
    have ih: "cs = map (\<lambda>t. chunk_at n t (concat cs)) [0..<chunk_count n (concat cs)]"
      using Cons.IH False Cons.prems(2,3) lastne by simp
    have cnt: "chunk_count n (concat (c # cs)) = Suc (chunk_count n (concat cs))"
      using chunk_count_append [OF assms(1) c rest] by simp
    have shift: "\<And>t. chunk_at n (Suc t) (c @ concat cs) = chunk_at n t (concat cs)"
      using c by (simp add: chunk_at_def)
    have "map (\<lambda>t. chunk_at n t (concat (c # cs))) [0..<Suc (chunk_count n (concat cs))]
            = chunk_at n 0 (c @ concat cs)
              # map (\<lambda>t. chunk_at n (Suc t) (c @ concat cs)) [0..<chunk_count n (concat cs)]"
      by (simp add: upt_conv_Cons map_Suc_upt [symmetric] del: upt_Suc)
    also have "\<dots> = c # cs" using ih shift c by (simp add: chunk_at_def)
    finally show ?thesis using cnt by simp
  qed
qed

lemma chunkify_chunks:
  assumes "0 < n"
  shows "chunkify S n = (map (\<lambda>t. chunk_at (nat n) t S) [0..<chunk_count (nat n) S], None)"
proof -
  obtain chunks where ch: "chunkify S n = (chunks, None)" "chunks \<noteq> []" "concat chunks = S"
      "\<forall>c \<in> set (butlast chunks). length c = nat n" "length (last chunks) \<le> nat n"
      "last chunks = [] \<longrightarrow> S = []"
    using chunkify_shape [OF assms] by blast
  have "chunks = map (\<lambda>t. chunk_at (nat n) t (concat chunks))
                   [0..<chunk_count (nat n) (concat chunks)]"
    by (rule chunks_unique) (use assms ch in simp_all)
  with ch(1,3) show ?thesis by simp
qed

section \<open>Properties of query\<close>

lemma list_setitem_nat:
  "i < length xs \<Longrightarrow> list_setitem xs (int i) v = Inr (xs[i := v])"
  by (simp add: list_setitem_def py_index_def)

lemma list_getitem_nat:
  "i < length xs \<Longrightarrow> list_getitem xs (int i) = Inr (xs ! i)"
  by (simp add: list_getitem_def py_index_def)

lemma fill_column_tuple:
  assumes "length XYs = w" and "\<forall>col \<in> set XYs. i < length col"
    and "w \<le> length cs" and "\<forall>j \<in> set js. j < w"
  shows "\<exists>XYs'. fill_column XYs i (PTuple cs) js = Inr XYs'
           \<and> length XYs' = w
           \<and> (\<forall>j < w. XYs' ! j = (if j \<in> set js then (XYs ! j)[i := cs ! j] else XYs ! j))"
  using assms
proof (induction js arbitrary: XYs)
  case Nil
  then show ?case by simp
next
  case (Cons j js)
  have j: "j < w" using Cons.prems(4) by simp
  then have jl: "j < length XYs" "j < length cs" using Cons.prems(1,3) by simp_all
  have il: "i < length (XYs ! j)" using Cons.prems(2) jl(1) by simp
  let ?X = "XYs[j := (XYs ! j)[i := cs ! j]]"
  have step: "fill_column XYs i (PTuple cs) (j # js) = fill_column ?X i (PTuple cs) js"
    using jl il by (simp add: list_getitem_nat list_setitem_nat)
  have "\<forall>col \<in> set ?X. i < length col"
  proof
    fix col assume "col \<in> set ?X"
    then have "col = (XYs ! j)[i := cs ! j] \<or> col \<in> set XYs"
      using set_update_subset_insert [of XYs j] by auto
    then show "i < length col" using il Cons.prems(2) by auto
  qed
  moreover have "length ?X = w" using Cons.prems(1) by simp
  moreover have "\<forall>j \<in> set js. j < w" using Cons.prems(4) by simp
  ultimately obtain XYs' where
    r: "fill_column ?X i (PTuple cs) js = Inr XYs'" "length XYs' = w"
       "\<forall>j' < w. XYs' ! j' = (if j' \<in> set js then (?X ! j')[i := cs ! j'] else ?X ! j')"
    using Cons.IH [of ?X] Cons.prems(3) by blast
  have "\<forall>j' < w. XYs' ! j' = (if j' \<in> set (j # js) then (XYs ! j')[i := cs ! j'] else XYs ! j')"
  proof (intro allI impI)
    fix j' assume "j' < w"
    then show "XYs' ! j' = (if j' \<in> set (j # js) then (XYs ! j')[i := cs ! j'] else XYs ! j')"
      using r(3) jl(1) by (cases "j' = j") simp_all
  qed
  with step r(1,2) show ?case by simp
qed

lemma fill_column_all:
  assumes "length XYs = w" and "\<forall>col \<in> set XYs. i < length col" and "w \<le> length cs"
  shows "\<exists>XYs'. fill_column XYs i (PTuple cs) [0..<w] = Inr XYs'
           \<and> length XYs' = w \<and> (\<forall>j < w. XYs' ! j = (XYs ! j)[i := cs ! j])"
  using fill_column_tuple [OF assms, of "[0..<w]"] by simp

lemma query_loop_traced:
  assumes "call_seq ds ks s = (map Inr items, s')"
    and "map (wrap_item wrap) items = map PTuple css"
    and "\<forall>cs \<in> set css. w \<le> length cs"
    and "length XYs = w" and "\<forall>col \<in> set XYs. length col = n" and "i + length ks \<le> n"
  shows "\<exists>XYs'. query_loop (traced ds) wrap [0..<w] XYs (enumerate i ks) (s, log)
                  = (Inr XYs', (s', log @ ks))
           \<and> length XYs' = w
           \<and> (\<forall>j < w. XYs' ! j
                  = take i (XYs ! j) @ map (\<lambda>cs. cs ! j) css @ drop (i + length ks) (XYs ! j))"
  using assms
proof (induction ks arbitrary: items css s XYs i log)
  case Nil
  then show ?case by simp
next
  case (Cons k ks)
  obtain r s1 where q: "query_item ds k s = (r, s1)" by (cases "query_item ds k s")
  obtain rs s2 where c: "call_seq ds ks s1 = (rs, s2)" by (cases "call_seq ds ks s1")
  from Cons.prems(1) q c have rr: "r # rs = map Inr items" and s2: "s2 = s'" by simp_all
  then obtain it items' where items: "items = it # items'" "r = Inr it" "rs = map Inr items'"
    by (cases items) auto
  from Cons.prems(2) items obtain cs css' where
    css: "css = cs # css'" "wrap_item wrap it = PTuple cs"
         "map (wrap_item wrap) items' = map PTuple css'"
    by (cases css) auto
  have w: "w \<le> length cs" "\<forall>cs \<in> set css'. w \<le> length cs"
    using Cons.prems(3) css(1) by simp_all
  have i: "i < n" using Cons.prems(6) by simp
  have "\<forall>col \<in> set XYs. i < length col" using Cons.prems(5) i by simp
  then obtain XYs1 where
    f: "fill_column XYs i (PTuple cs) [0..<w] = Inr XYs1" "length XYs1 = w"
       "\<forall>j < w. XYs1 ! j = (XYs ! j)[i := cs ! j]"
    using fill_column_all [OF Cons.prems(4) _ w(1)] by blast
  have len1: "\<forall>col \<in> set XYs1. length col = n"
  proof
    fix col assume "col \<in> set XYs1"
    then obtain j where "j < w" "col = XYs1 ! j" using f(2) by (auto simp: in_set_conv_nth)
    then show "length col = n" using f(3) Cons.prems(4,5) by simp
  qed
  have "Suc i + length ks \<le> n" using Cons.prems(6) by simp
  then obtain XYs' where
    l: "query_loop (traced ds) wrap [0..<w] XYs1 (enumerate (Suc i) ks) (s1, log @ [k])
          = (Inr XYs', (s', (log @ [k]) @ ks))"
       "length XYs' = w"
       "\<forall>j < w. XYs' ! j = take (Suc i) (XYs1 ! j) @ map (\<lambda>cs. cs ! j) css'
                              @ drop (Suc i + length ks) (XYs1 ! j)"
    using Cons.IH [OF _ css(3) w(2) f(2) len1, of s1 "Suc i" "log @ [k]"] c items(3) s2
    by blast
  have tq: "query_item (traced ds) k (s, log) = (Inr it, (s1, log @ [k]))"
    using q items(2) by (simp add: traced_def)
  have step: "query_loop (traced ds) wrap [0..<w] XYs (enumerate i (k # ks)) (s, log)
                = (Inr XYs', (s', log @ k # ks))"
    using tq css(2) f(1) l(1) by (simp add: enumerate_simps)
  have "\<forall>j < w. XYs' ! j = take i (XYs ! j) @ map (\<lambda>cs. cs ! j) css
                              @ drop (i + length (k # ks)) (XYs ! j)"
  proof (intro allI impI)
    fix j assume j: "j < w"
    then have "length (XYs ! j) = n" using Cons.prems(4,5) by simp
    then have "take (Suc i) ((XYs ! j)[i := cs ! j]) = take i (XYs ! j) @ [cs ! j]"
      using i by (simp add: take_Suc_conv_app_nth)
    then show "XYs' ! j = take i (XYs ! j) @ map (\<lambda>cs. cs ! j) css
                              @ drop (i + length (k # ks)) (XYs ! j)"
      using l(3) f(3) j css(1) by simp
  qed
  with step l(2) show ?case by blast
qed

lemma map_np_array: "map np_array XYs = XYs"
  by (induction XYs) (simp_all add: np_array_def)

lemma call_seq_length: "call_seq ds ks s = (rs, s') \<Longrightarrow> length rs = length ks"
  by (induction ks arbitrary: s rs) (auto split: prod.splits)

text \<open>
  C3.  Let \<open>keys\<close> be non-empty, let the dataset answer the calls \<open>query_item(keys[0])\<close>,
  \<open>query_item(keys[1])\<close>, ... with the items \<open>items\<close>, and let every item (wrapped when
  \<open>wrap\<close> is set) be a tuple with at least as many components as the first.  Then \<open>query\<close>
  returns one array per component of the first item, every array has length \<open>len(keys)\<close>,
  position \<open>i\<close> of array \<open>j\<close> is component \<open>j\<close> of the item of \<open>keys[i]\<close>, and the calls
  made to \<open>query_item\<close> are exactly those of \<open>keys\<close>, in order.
\<close>

theorem query_postcondition:
  assumes "keys \<noteq> []"
    and "call_seq ds keys s = (map Inr items, s')"
    and "map (wrap_item wrap) items = map PTuple css"
    and "\<forall>cs \<in> set css. length (hd css) \<le> length cs"
  shows "\<exists>arrays. query (traced ds) keys wrap (s, log) = (Inr arrays, (s', log @ keys))
           \<and> length arrays = length (hd css)
           \<and> (\<forall>j < length (hd css). length (arrays ! j) = length keys
                  \<and> (\<forall>i < length keys. arrays ! j ! i = css ! i ! j))"
proof -
  obtain k ks where keys: "keys = k # ks" using assms(1) by (cases keys) auto
  obtain r s1 where q: "query_item ds k s = (r, s1)" by (cases "query_item ds k s")
  obtain rs s2 where c: "call_seq ds ks s1 = (rs, s2)" by (cases "call_seq ds ks s1")
  from assms(2) keys q c have rr: "r # rs = map Inr items" and s2: "s2 = s'" by simp_all
  then obtain it items' where items: "items = it # items'" "r = Inr it" "rs = map Inr items'"
    by (cases items) auto
  from assms(3) items obtain cs css' where
    css: "css = cs # css'" "wrap_item wrap it = PTuple cs"
         "map (wrap_item wrap) items' = map PTuple css'"
    by (cases css) auto
  define w where "w = length cs"
  define n where "n = length keys"
  have lens: "length css' = length ks"
    using call_seq_length [OF c] items(3) css(3) by (metis length_map)
  have wle: "\<forall>cs \<in> set css'. w \<le> length cs" using assms(4) css(1) w_def by simp
  let ?XYs = "map (\<lambda>j. replicate n PNone) [0..<w]"
  have "\<forall>col \<in> set ?XYs. 0 < length col" using keys n_def by auto
  then obtain XYs1 where
    f: "fill_column ?XYs 0 (PTuple cs) [0..<w] = Inr XYs1" "length XYs1 = w"
       "\<forall>j < w. XYs1 ! j = (?XYs ! j)[0 := cs ! j]"
    using fill_column_all [of ?XYs w 0 cs] w_def by auto
  have len1: "\<forall>col \<in> set XYs1. length col = n"
  proof
    fix col assume "col \<in> set XYs1"
    then obtain j where "j < w" "col = XYs1 ! j" using f(2) by (auto simp: in_set_conv_nth)
    then show "length col = n" using f(3) by simp
  qed
  have "Suc 0 + length ks \<le> n" using keys n_def by simp
  then obtain XYs' where
    l: "query_loop (traced ds) wrap [0..<w] XYs1 (enumerate (Suc 0) ks) (s1, log @ [k])
          = (Inr XYs', (s', (log @ [k]) @ ks))"
       "length XYs' = w"
       "\<forall>j < w. XYs' ! j = take (Suc 0) (XYs1 ! j) @ map (\<lambda>cs. cs ! j) css'
                              @ drop (Suc 0 + length ks) (XYs1 ! j)"
    using query_loop_traced [where ds = ds and s = s1 and i = "Suc 0" and log = "log @ [k]",
        OF _ css(3) wle f(2) len1] c items(3) s2 by blast
  have tq: "query_item (traced ds) k (s, log) = (Inr it, (s1, log @ [k]))"
    using q items(2) by (simp add: traced_def)
  have res: "query (traced ds) keys wrap (s, log) = (Inr XYs', (s', log @ keys))"
    using tq css(2) f(1) l(1) keys
    by (simp add: query_def enumerate_simps w_def n_def map_np_array)
  have cols: "\<forall>j < w. XYs' ! j = map (\<lambda>cs. cs ! j) css"
  proof (intro allI impI)
    fix j assume j: "j < w"
    have "XYs1 ! j = (replicate n PNone)[0 := cs ! j]" using f(3) j by simp
    moreover have "n = Suc (length ks)" using keys n_def by simp
    ultimately show "XYs' ! j = map (\<lambda>cs. cs ! j) css"
      using l(3) j css(1) by simp
  qed
  have lcss: "length css = length keys" using lens css(1) keys by simp
  have w2: "w = length (hd css)" using css(1) w_def by simp
  have "\<forall>j < w. length (XYs' ! j) = length keys
                  \<and> (\<forall>i < length keys. XYs' ! j ! i = css ! i ! j)"
    using cols lcss by simp
  with res l(2) show ?thesis unfolding w2 by blast
qed

theorem query_postcondition_witness:
  "\<exists>arrays.
      query (traced (DictDataset
         [(PInt 0, PTuple [PStr ''Denzel'', PStr ''Washington'']),
          (PInt 1, PTuple [PStr ''Tom'', PStr ''Hanks''])]))
        [PInt 1, PInt 0, PInt 1] False ((), [])
        = (Inr arrays, ((), [PInt 1, PInt 0, PInt 1]))
      \<and> length arrays = 2
      \<and> (\<forall>j < 2. length (arrays ! j) = 3
            \<and> (\<forall>i < 3. arrays ! j ! i
                  = [[PStr ''Tom'', PStr ''Hanks''], [PStr ''Denzel'', PStr ''Washington''],
                     [PStr ''Tom'', PStr ''Hanks'']] ! i ! j))"
proof -
  let ?D = "DictDataset
         [(PInt 0, PTuple [PStr ''Denzel'', PStr ''Washington'']),
          (PInt 1, PTuple [PStr ''Tom'', PStr ''Hanks''])]"
  let ?css = "[[PStr ''Tom'', PStr ''Hanks''], [PStr ''Denzel'', PStr ''Washington''],
               [PStr ''Tom'', PStr ''Hanks'']]"
  have 1: "[PInt 1, PInt 0, PInt 1] \<noteq> []" by simp
  have 2: "call_seq ?D [PInt 1, PInt 0, PInt 1] () = (map Inr (map PTuple ?css), ())"
    by (simp add: DictDataset_def)
  have 3: "map (wrap_item False) (map PTuple ?css) = map PTuple ?css"
    by (simp add: wrap_item_def)
  have 4: "\<forall>cs \<in> set ?css. length (hd ?css) \<le> length cs" by simp
  show ?thesis
    using query_postcondition [OF 1 2 3 4, of "[]"]
    by (simp add: numeral_2_eq_2 numeral_3_eq_3)
qed

text \<open>
  C5.  On an empty key list \<open>query\<close> raises \<open>StopIteration\<close> (the spec's \<open>EmptyBatch\<close>) from
  \<open>next(iterator)\<close>, for every dataset and either value of \<open>wrap\<close>; the log of the recording
  stub and the state of the dataset are unchanged, so \<open>query_item\<close> was not called.
\<close>

theorem query_empty_batch:
  "query (traced ds) [] wrap (s, log) = (Inl StopIteration, (s, log))"
  by (simp add: query_def)

section \<open>Properties of balanced_batches\<close>

lemma next_all_plain:
  "next_all (map (\<lambda>cl. (cl, None)) cls)
     = (if \<exists>cl \<in> set cls. cl = [] then Stop
        else Yield (map hd cls, map (\<lambda>cl. (cl, None)) (map tl cls)))"
proof (induction cls)
  case Nil
  then show ?case by simp
next
  case (Cons cl cls)
  then show ?case by (cases cl) auto
qed

lemma Min_length_tl:
  assumes "cls \<noteq> []" and "\<forall>cl \<in> set cls. cl \<noteq> []"
  shows "Min (set (map length (map tl cls))) = Min (set (map length cls)) - 1"
proof -
  have "mono (\<lambda>k::nat. k - 1)" by (rule monoI) simp
  then have "(\<lambda>k::nat. k - 1) (Min (length ` set cls)) = Min ((\<lambda>k. k - 1) ` length ` set cls)"
    using assms(1) by (intro mono_Min_commute) simp_all
  moreover have "(\<lambda>k. k - 1) ` length ` set cls = set (map length (map tl cls))"
    by (auto simp: image_iff)
  ultimately show ?thesis by simp
qed

lemma zip_star_plain:
  assumes "cls \<noteq> []"
  shows "zip_star (map (\<lambda>cl. (cl, None)) cls)
           = (map (\<lambda>t. map (\<lambda>cl. cl ! t) cls) [0..<Min (set (map length cls))], None)"
  using assms
proof (induction k \<equiv> "Min (set (map length cls))" arbitrary: cls)
  case 0
  then have "0 \<in> set (map length cls)"
    by (metis List.finite_set Min_in map_is_Nil_conv set_empty)
  then have "\<exists>cl \<in> set cls. cl = []" by auto
  then have "zip_next (map (\<lambda>cl. (cl, None)) cls) = Stop"
    using "0.prems" by (simp add: zip_next_def next_all_plain)
  then show ?case using "0.hyps" by (simp add: zip_star.simps)
next
  case (Suc k)
  have ne: "\<forall>cl \<in> set cls. cl \<noteq> []"
  proof
    fix cl assume "cl \<in> set cls"
    then have "Min (set (map length cls)) \<le> length cl" by simp
    then show "cl \<noteq> []" using Suc.hyps(2) by auto
  qed
  have tl_ne: "map tl cls \<noteq> []" using Suc.prems by simp
  have k: "k = Min (set (map length (map tl cls)))"
    using Min_length_tl [OF Suc.prems ne] Suc.hyps(2) by simp
  have ih: "zip_star (map (\<lambda>cl. (cl, None)) (map tl cls))
              = (map (\<lambda>t. map (\<lambda>cl. cl ! t) (map tl cls)) [0..<k], None)"
    using Suc.hyps(1) [OF k tl_ne] k by simp
  have zn: "zip_next (map (\<lambda>cl. (cl, None)) cls)
              = Yield (map hd cls, map (\<lambda>cl. (cl, None)) (map tl cls))"
    using Suc.prems ne by (simp add: zip_next_def next_all_plain)
  have "zip_star (map (\<lambda>cl. (cl, None)) cls)
          = (map hd cls # map (\<lambda>t. map (\<lambda>cl. cl ! t) (map tl cls)) [0..<k], None)"
    by (subst zip_star.simps) (simp add: zn ih del: map_map)
  moreover have "map hd cls = map (\<lambda>cl. cl ! 0) cls"
    using ne by (simp add: hd_conv_nth)
  moreover have "map (\<lambda>t. map (\<lambda>cl. cl ! t) (map tl cls)) [0..<k]
                   = map (\<lambda>t. map (\<lambda>cl. cl ! t) cls) (map Suc [0..<k])"
  proof -
    have "\<And>t. t < k \<Longrightarrow> map (\<lambda>cl. cl ! t) (map tl cls) = map (\<lambda>cl. cl ! Suc t) cls"
    proof -
      fix t assume t: "t < k"
      have "\<forall>cl \<in> set cls. tl cl ! t = cl ! Suc t"
      proof
        fix cl assume cl: "cl \<in> set cls"
        then have "Min (set (map length cls)) \<le> length cl" by simp
        then have "Suc t < length cl" using t Suc.hyps(2) by simp
        then show "tl cl ! t = cl ! Suc t" by (simp add: nth_tl)
      qed
      then show "map (\<lambda>cl. cl ! t) (map tl cls) = map (\<lambda>cl. cl ! Suc t) cls" by simp
    qed
    then show ?thesis by simp
  qed
  moreover have "[0..<Suc k] = 0 # map Suc [0..<k]"
    by (simp add: upt_conv_Cons map_Suc_upt del: upt_Suc)
  ultimately show ?case using Suc.hyps(2) [symmetric] by simp
qed

lemma slice_to_nat: "slice_to p (int m) = take m p"
  by (simp add: slice_to_def)

lemma balanced_loop_query_each:
  assumes "\<forall>p \<in> set ps. p \<noteq> [] \<and> (\<forall>c \<in> set p. int (length c) \<le> batch_size)"
  shows "balanced_loop ds batch_size wrap ps s
           = query_each ds wrap
               (map (\<lambda>p. concat (map (take (Min (set (map length p)))) p)) ps) s"
  using assms
proof (induction ps arbitrary: s)
  case Nil
  then show ?case by simp
next
  case (Cons p ps)
  let ?m = "Min (set (map length p))"
  have p: "p \<noteq> []" "\<forall>c \<in> set p. int (length c) \<le> batch_size" using Cons.prems by simp_all
  have tr: "(if int ?m \<noteq> batch_size then map (\<lambda>c. slice_to c (int ?m)) p else p)
              = map (take ?m) p"
  proof (cases "int ?m = batch_size")
    case True
    then have "\<forall>c \<in> set p. length c \<le> ?m" using p(2) by auto
    then have "map (take ?m) p = p" by (simp add: map_idI)
    with True show ?thesis by simp
  next
    case False
    then show ?thesis by (simp add: slice_to_nat)
  qed
  have ih: "\<And>s'. balanced_loop ds batch_size wrap ps s'
           = query_each ds wrap
               (map (\<lambda>p. concat (map (take (Min (set (map length p)))) p)) ps) s'"
    using Cons.IH Cons.prems by simp
  show ?case
    using p(1) by (simp add: Let_def tr ih del: set_map split: prod.split sum.split list.split)
qed

lemma query_Nil: "query ds [] wrap s = (Inl StopIteration, s)"
  by (simp add: query_def)

lemma full_chunk:
  assumes "0 < n" and "Suc t < chunk_count n g"
  shows "length (chunk_at n t g) = n"
proof -
  have g: "g \<noteq> []" using assms(2) by (auto simp: chunk_count_def)
  then have "Suc (Suc t) \<le> (length g + n - 1) div n"
    using assms(2) by (simp add: chunk_count_def)
  then have "Suc (Suc t) * n \<le> length g + n - 1"
    using assms(1) by (simp add: less_eq_div_iff_mult_less_eq)
  then have "Suc t * n + n \<le> length g + n - 1" by (simp add: algebra_simps)
  then have "Suc t * n \<le> length g" using assms(1) by simp
  then have "n \<le> length g - t * n" by simp
  then show ?thesis by (simp add: chunk_at_def)
qed

lemma sub_size_facts:
  assumes "split_keys \<noteq> []" and "int (length split_keys) dvd batch_size" and "0 < batch_size"
  shows "0 < batch_size div int (length split_keys)"
    and "batch_size div int (length split_keys) * int (length split_keys) = batch_size"
    and "batch_size div int (length split_keys) \<le> batch_size"
proof -
  let ?k = "int (length split_keys)"
  have k: "0 < ?k" using assms(1) by simp
  show eq: "batch_size div ?k * ?k = batch_size" using assms(2) by simp
  show pos: "0 < batch_size div ?k"
    using assms(3) k eq by (metis zero_less_mult_pos2)
  have "1 \<le> ?k" using assms(1) by (cases split_keys) simp_all
  then have "batch_size div ?k * 1 \<le> batch_size div ?k * ?k"
    using pos by (intro mult_left_mono) simp_all
  then show "batch_size div ?k \<le> batch_size" using eq by simp
qed

lemma balanced_batches_positive:
  assumes "split_keys \<noteq> []" and "int (length split_keys) dvd batch_size" and "0 < batch_size"
  shows "balanced_batches ds split_keys batch_size wrap s
           = query_each ds wrap (expected_key_lists split_keys batch_size) s"
proof -
  define n where "n = batch_size div int (length split_keys)"
  have n: "0 < n" "n * int (length split_keys) = batch_size" "n \<le> batch_size"
    using sub_size_facts [OF assms] by (simp_all add: n_def)
  define m where "m = nat n"
  have m: "0 < m" "int m \<le> batch_size" using n by (simp_all add: m_def)
  define cls where
    "cls = map (\<lambda>g. map (\<lambda>t. chunk_at m t g) [0..<chunk_count m g]) split_keys"
  define T where "T = Min (set (map (chunk_count m) split_keys))"
  define ps where "ps = map (\<lambda>t. map (chunk_at m t) split_keys) [0..<T]"
  have gens: "map (\<lambda>keys. chunkify keys n) split_keys = map (\<lambda>cl. (cl, None)) cls"
    using n(1) by (simp add: chunkify_chunks cls_def m_def)
  have lens: "map length cls = map (chunk_count m) split_keys"
    by (simp add: cls_def)
  have "cls \<noteq> []" using assms(1) by (simp add: cls_def)
  then have z: "zip_star (map (\<lambda>cl. (cl, None)) cls)
                  = (map (\<lambda>t. map (\<lambda>cl. cl ! t) cls) [0..<T], None)"
    using zip_star_plain [of cls] lens by (simp add: T_def)
  have "\<And>t. t < T \<Longrightarrow> map (\<lambda>cl. cl ! t) cls = map (chunk_at m t) split_keys"
  proof -
    fix t assume t: "t < T"
    have "\<forall>g \<in> set split_keys. t < chunk_count m g"
    proof
      fix g assume "g \<in> set split_keys"
      then have "T \<le> chunk_count m g" by (simp add: T_def)
      with t show "t < chunk_count m g" by simp
    qed
    then show "map (\<lambda>cl. cl ! t) cls = map (chunk_at m t) split_keys"
      by (simp add: cls_def)
  qed
  then have tuples: "map (\<lambda>t. map (\<lambda>cl. cl ! t) cls) [0..<T] = ps"
    by (simp add: ps_def)
  have wf: "\<forall>p \<in> set ps. p \<noteq> [] \<and> (\<forall>c \<in> set p. int (length c) \<le> batch_size)"
    using assms(1) m(2) by (auto simp: ps_def chunk_at_def)
  have loop: "balanced_loop ds batch_size wrap ps s
           = query_each ds wrap
               (map (\<lambda>p. concat (map (take (Min (set (map length p)))) p)) ps) s"
    by (rule balanced_loop_query_each [OF wf])
  have kl: "map (\<lambda>p. concat (map (take (Min (set (map length p)))) p)) ps
              = expected_key_lists split_keys batch_size"
    using assms(1)
    by (simp add: ps_def expected_key_lists_def shortest_chunk_def T_def m_def n_def
        comp_def Let_def del: set_map)
  obtain bs e s' where q: "query_each ds wrap (expected_key_lists split_keys batch_size) s
                             = (bs, e, s')"
    by (cases "query_each ds wrap (expected_key_lists split_keys batch_size) s") auto
  have "balanced_batches ds split_keys batch_size wrap s = (bs, e, s')"
    using assms(1) n(2) gens z tuples loop kl q
    by (cases e) (simp_all add: balanced_batches_def n_def [symmetric] Let_def)
  with q show ?thesis by simp
qed

lemma expected_full_length:
  assumes "groups \<noteq> []" and "int (length groups) dvd batch_size" and "0 < batch_size"
    and "Suc t < length (expected_key_lists groups batch_size)"
  shows "int (length (expected_key_lists groups batch_size ! t)) = batch_size"
proof -
  define n where "n = batch_size div int (length groups)"
  have n: "0 < n" "n * int (length groups) = batch_size"
    using sub_size_facts [OF assms(1-3)] by (simp_all add: n_def)
  define m where "m = nat n"
  have m: "0 < m" using n by (simp add: m_def)
  define T where "T = Min (set (map (chunk_count m) groups))"
  have len: "length (expected_key_lists groups batch_size) = T"
    using assms(1) by (simp add: expected_key_lists_def T_def m_def n_def Let_def)
  then have t: "Suc t < T" "t < T" using assms(4) by simp_all
  have full: "\<forall>g \<in> set groups. length (chunk_at m t g) = m"
  proof
    fix g assume "g \<in> set groups"
    then have "T \<le> chunk_count m g" by (simp add: T_def)
    then show "length (chunk_at m t g) = m" using t(1) m by (intro full_chunk) simp_all
  qed
  then have "(\<lambda>g. length (chunk_at m t g)) ` set groups = {m}"
    using assms(1) by (cases groups) auto
  then have sh: "shortest_chunk m t groups = m" by (simp add: shortest_chunk_def)
  have "expected_key_lists groups batch_size ! t
          = concat (map (\<lambda>g. take m (chunk_at m t g)) groups)"
    using assms(1) t(2) sh
    by (simp add: expected_key_lists_def T_def [symmetric] m_def [symmetric] n_def [symmetric]
        Let_def del: set_map)
  moreover have "length (concat (map (\<lambda>g. take m (chunk_at m t g)) groups))
                   = length groups * m"
    using full by (induction groups) simp_all
  ultimately have "int (length (expected_key_lists groups batch_size ! t))
                     = int (length groups) * n"
    using n(1) by (simp add: m_def)
  with n(2) show ?thesis by (simp add: mult.commute)
qed

lemma chunkify_nonpositive:
  "n \<le> 0 \<Longrightarrow> \<forall>c \<in> set (fst (chunkify S n)). c = []"
  by (cases S) (auto simp: chunkify_def list_setitem_def py_index_def slice_to_def Let_def)

lemma next_all_elements:
  assumes "next_all gens = Yield (xs, gens')" and "\<forall>g \<in> set gens. \<forall>c \<in> set (fst g). P c"
  shows "(\<forall>x \<in> set xs. P x) \<and> (\<forall>g \<in> set gens'. \<forall>c \<in> set (fst g). P c)"
  using assms
proof (induction gens arbitrary: xs gens')
  case Nil
  then show ?case by simp
next
  case (Cons g gs)
  obtain ys e where g: "g = (ys, e)" by (cases g)
  with Cons.prems(1) obtain y ys' where ys: "ys = y # ys'"
    by (cases ys; cases e) simp_all
  with Cons.prems(1) g obtain xs' gs' where
    r: "next_all gs = Yield (xs', gs')" "xs = y # xs'" "gens' = (ys', e) # gs'"
    by (auto split: step.splits)
  have "(\<forall>x \<in> set xs'. P x) \<and> (\<forall>g \<in> set gs'. \<forall>c \<in> set (fst g). P c)"
    using Cons.IH [OF r(1)] Cons.prems(2) by simp
  then show ?case using r(2,3) Cons.prems(2) g ys by simp
qed

lemma zip_star_elements:
  "\<forall>g \<in> set gens. \<forall>c \<in> set (fst g). P c
     \<Longrightarrow> \<forall>p \<in> set (fst (zip_star gens)). \<forall>c \<in> set p. P c"
proof (induction gens rule: zip_star.induct)
  case (1 gens)
  show ?case
  proof (cases "zip_next gens")
    case (Yield r)
    obtain xs gens' where r: "r = (xs, gens')" by (cases r)
    have na: "next_all gens = Yield (xs, gens')"
      using Yield r by (simp add: zip_next_def split: if_splits)
    have el: "(\<forall>x \<in> set xs. P x) \<and> (\<forall>g \<in> set gens'. \<forall>c \<in> set (fst g). P c)"
      using next_all_elements [OF na "1.prems"] .
    then have "\<forall>p \<in> set (fst (zip_star gens')). \<forall>c \<in> set p. P c"
      using "1.IH" [OF Yield r [symmetric]] by simp
    then show ?thesis
      using el Yield r by (subst zip_star.simps) (simp split: prod.splits)
  next
    case Stop
    then show ?thesis by (subst zip_star.simps) simp
  next
    case (Raise e)
    then show ?thesis by (subst zip_star.simps) simp
  qed
qed

lemma balanced_loop_empty_chunks:
  assumes "\<forall>p \<in> set ps. \<forall>c \<in> set p. c = []"
  shows "fst (balanced_loop ds batch_size wrap ps s) = []"
proof (cases ps)
  case Nil
  then show ?thesis by simp
next
  case (Cons p rest)
  have p: "\<forall>c \<in> set p. c = []" using assms Cons by simp
  then have cp: "concat p = []" by simp
  have cs: "concat (map (\<lambda>c. slice_to c (int (Min (set (map length p))))) p) = []"
    using p by (simp add: slice_to_nat)
  show ?thesis
    unfolding Cons by (simp add: cp cs Let_def query_Nil del: set_map)
qed

lemma query_each_empty:
  "\<forall>kl \<in> set kls. kl = [] \<Longrightarrow> fst (query_each ds wrap kls s) = []"
  by (cases kls) (simp_all add: query_Nil)

lemma balanced_batches_nonpositive:
  assumes "batch_size \<le> 0"
  shows "fst (balanced_batches ds split_keys batch_size wrap s) = []"
proof (cases "split_keys = [] \<or>
    batch_size div int (length split_keys) * int (length split_keys) \<noteq> batch_size")
  case True
  then show ?thesis by (auto simp: balanced_batches_def Let_def)
next
  case False
  define n where "n = batch_size div int (length split_keys)"
  have "0 < int (length split_keys)" using False by simp
  then have n: "n \<le> 0" using assms unfolding n_def by (simp add: div_nonpos_pos_le0)
  obtain ps ze where z: "zip_star (map (\<lambda>keys. chunkify keys n) split_keys) = (ps, ze)"
    by (cases "zip_star (map (\<lambda>keys. chunkify keys n) split_keys)")
  have "\<forall>g \<in> set (map (\<lambda>keys. chunkify keys n) split_keys). \<forall>c \<in> set (fst g). c = []"
    using chunkify_nonpositive [OF n] by simp
  then have "\<forall>p \<in> set ps. \<forall>c \<in> set p. c = []"
    using zip_star_elements [of "map (\<lambda>keys. chunkify keys n) split_keys" "\<lambda>c. c = []"] z
    by simp
  then have e: "fst (balanced_loop ds batch_size wrap ps s) = []"
    by (rule balanced_loop_empty_chunks)
  obtain bs e' s' where b: "balanced_loop ds batch_size wrap ps s = (bs, e', s')"
    by (cases "balanced_loop ds batch_size wrap ps s") auto
  with e have "bs = []" by simp
  then show ?thesis
    using False z b by (cases e') (simp_all add: balanced_batches_def n_def [symmetric] Let_def)
qed

lemma expected_nonpositive:
  assumes "batch_size \<le> 0"
  shows "\<forall>kl \<in> set (expected_key_lists groups batch_size). kl = []"
proof (cases "groups = []")
  case True
  then show ?thesis by (simp add: expected_key_lists_def)
next
  case False
  then have "0 < int (length groups)" by simp
  then have "batch_size div int (length groups) \<le> 0"
    using assms by (simp add: div_nonpos_pos_le0)
  then have z: "nat (batch_size div int (length groups)) = 0" by simp
  have "concat (map (\<lambda>g. []) groups) = []" by simp
  then show ?thesis
    using False by (auto simp: expected_key_lists_def chunk_at_def Let_def z)
qed

lemma expected_length_nonpositive:
  assumes "batch_size \<le> 0"
  shows "length (expected_key_lists groups batch_size) \<le> 1"
proof (cases groups)
  case Nil
  then show ?thesis by (simp add: expected_key_lists_def)
next
  case (Cons g gs)
  then have "0 < int (length groups)" by simp
  then have "batch_size div int (length groups) \<le> 0"
    using assms by (simp add: div_nonpos_pos_le0)
  then have z: "nat (batch_size div int (length groups)) = 0" by simp
  have "Min (set (map (chunk_count 0) groups)) \<le> chunk_count 0 g"
    using Cons by simp
  also have "\<dots> \<le> 1" by (simp add: chunk_count_def)
  finally show ?thesis
    using Cons z by (simp add: expected_key_lists_def Let_def del: set_map)
qed

lemma expected_sub_runs:
  assumes "t < length (expected_key_lists groups batch_size)"
    and "n = nat (batch_size div int (length groups))"
  shows "expected_key_lists groups batch_size ! t
           = concat (map (\<lambda>g. take (shortest_chunk n t groups) (drop (t * n) g)) groups)
         \<and> shortest_chunk n t groups \<le> n"
proof -
  have ne: "groups \<noteq> []" using assms(1) by (auto simp: expected_key_lists_def)
  have t: "t < Min (set (map (chunk_count n) groups))"
    using assms ne by (simp add: expected_key_lists_def Let_def del: set_map)
  have "shortest_chunk n t groups \<le> length (chunk_at n t (hd groups))"
    using ne unfolding shortest_chunk_def by (intro Min_le) auto
  also have "\<dots> \<le> n" by (simp add: chunk_at_def)
  finally have le: "shortest_chunk n t groups \<le> n" .
  have "expected_key_lists groups batch_size ! t
           = concat (map (\<lambda>g. take (shortest_chunk n t groups) (chunk_at n t g)) groups)"
    using t ne assms(2) by (simp add: expected_key_lists_def Let_def del: set_map)
  also have "map (\<lambda>g. take (shortest_chunk n t groups) (chunk_at n t g)) groups
               = map (\<lambda>g. take (shortest_chunk n t groups) (drop (t * n) g)) groups"
    unfolding chunk_at_def take_take using le by (simp add: min_def)
  finally show ?thesis using le by simp
qed

text \<open>
  C4.  When the number of groups divides \<open>batch_size\<close>, the batches that \<open>balanced_batches\<close>
  yields are those that \<open>query\<close> assembles, one after the other, from the key lists of
  \<open>expected_key_lists\<close> (for a positive \<open>batch_size\<close> the exception that ends the generator
  and the final state agree as well).  Key list \<open>t\<close> is the concatenation, in group order,
  of one contiguous run of every group, the run of group \<open>g\<close> starting at position
  \<open>t * n\<close> and having the length of the shortest chunk of iteration \<open>t\<close>, where
  \<open>n = batch_size / groups\<close>; and every key list but the last has \<open>batch_size\<close> keys.
\<close>

theorem balanced_batches_structure:
  assumes "int (length split_keys) dvd batch_size"
  shows "fst (balanced_batches ds split_keys batch_size wrap s)
           = fst (query_each ds wrap (expected_key_lists split_keys batch_size) s)
       \<and> (0 < batch_size \<longrightarrow>
            balanced_batches ds split_keys batch_size wrap s
              = query_each ds wrap (expected_key_lists split_keys batch_size) s)
       \<and> (\<forall>t < length (expected_key_lists split_keys batch_size).
            expected_key_lists split_keys batch_size ! t
              = concat (map (\<lambda>g. take (shortest_chunk (nat (batch_size div int (length split_keys)))
                                           t split_keys)
                                     (drop (t * nat (batch_size div int (length split_keys))) g))
                          split_keys)
            \<and> shortest_chunk (nat (batch_size div int (length split_keys))) t split_keys
                \<le> nat (batch_size div int (length split_keys))
            \<and> (Suc t < length (expected_key_lists split_keys batch_size)
                 \<longrightarrow> int (length (expected_key_lists split_keys batch_size ! t)) = batch_size))"
proof (intro conjI allI impI)
  show "fst (balanced_batches ds split_keys batch_size wrap s)
           = fst (query_each ds wrap (expected_key_lists split_keys batch_size) s)"
  proof (cases "0 < batch_size")
    case True
    then have ne: "split_keys \<noteq> []" using assms by auto
    show ?thesis using balanced_batches_positive [OF ne assms True, of ds wrap s] by simp
  next
    case False
    then have np: "batch_size \<le> 0" by simp
    have "fst (balanced_batches ds split_keys batch_size wrap s) = []"
      by (rule balanced_batches_nonpositive [OF np])
    moreover have "fst (query_each ds wrap (expected_key_lists split_keys batch_size) s) = []"
      by (rule query_each_empty [OF expected_nonpositive [OF np]])
    ultimately show ?thesis by simp
  qed
next
  assume pos: "0 < batch_size"
  then have ne: "split_keys \<noteq> []" using assms by auto
  show "balanced_batches ds split_keys batch_size wrap s
              = query_each ds wrap (expected_key_lists split_keys batch_size) s"
    by (rule balanced_batches_positive [OF ne assms pos])
next
  fix t assume t: "t < length (expected_key_lists split_keys batch_size)"
  show "expected_key_lists split_keys batch_size ! t
              = concat (map (\<lambda>g. take (shortest_chunk (nat (batch_size div int (length split_keys)))
                                           t split_keys)
                                     (drop (t * nat (batch_size div int (length split_keys))) g))
                          split_keys)"
    using expected_sub_runs [OF t refl] by simp
  show "shortest_chunk (nat (batch_size div int (length split_keys))) t split_keys
                \<le> nat (batch_size div int (length split_keys))"
    using expected_sub_runs [OF t refl] by simp
next
  fix t assume t: "Suc t < length (expected_key_lists split_keys batch_size)"
  have ne: "split_keys \<noteq> []" using t by (auto simp: expected_key_lists_def)
  have "0 < batch_size"
  proof (rule ccontr)
    assume "\<not> 0 < batch_size"
    then have "length (expected_key_lists split_keys batch_size) \<le> 1"
      by (intro expected_length_nonpositive) simp
    with t show False by simp
  qed
  then show "int (length (expected_key_lists split_keys batch_size ! t)) = batch_size"
    using expected_full_length [OF ne assms _ t] by simp
qed

theorem balanced_batches_structure_witness:
  "int (length [map PInt [0, 1, 2], map PInt [4, 5, 6, 7]]) dvd 4
   \<and> fst (balanced_batches
            (DictDataset (map (\<lambda>i. (PInt i, PTuple [PInt (10 * i), PInt (100 * i)]))
                            [0, 1, 2, 3, 4, 5, 6, 7]))
            [map PInt [0, 1, 2], map PInt [4, 5, 6, 7]] 4 False ())
       = [([PInt 0, PInt 10, PInt 40, PInt 50], [PInt 0, PInt 100, PInt 400, PInt 500]),
          ([PInt 20, PInt 60], [PInt 200, PInt 600])]
   \<and> expected_key_lists [map PInt [0, 1, 2], map PInt [4, 5, 6, 7]] 4
       = [map PInt [0, 1, 4, 5], map PInt [2, 6]]"
proof -
  let ?G = "[map PInt [0, 1, 2], map PInt [4, 5, 6, 7]]"
  let ?D = "DictDataset (map (\<lambda>i. (PInt i, PTuple [PInt (10 * i), PInt (100 * i)]))
                            [0, 1, 2, 3, 4, 5, 6, 7])"
  have d: "int (length ?G) dvd 4" by simp
  have e: "expected_key_lists ?G 4 = [map PInt [0, 1, 4, 5], map PInt [2, 6]]"
    by code_simp
  have q: "fst (query_each ?D False [map PInt [0, 1, 4, 5], map PInt [2, 6]] ())
       = [([PInt 0, PInt 10, PInt 40, PInt 50], [PInt 0, PInt 100, PInt 400, PInt 500]),
          ([PInt 20, PInt 60], [PInt 200, PInt 600])]"
    by code_simp
  show ?thesis
    using balanced_batches_structure [OF d, of ?D False "()"] d e q by simp
qed

text \<open>
  C6, as amended.  With at least one group and a \<open>batch_size\<close> that the number of groups
  does not divide, \<open>balanced_batches\<close> raises \<open>AssertionError\<close> (the spec's
  \<open>EvenSplitRequired\<close>) before it yields a batch or touches the dataset.
\<close>

theorem balanced_batches_even_split:
  assumes "split_keys \<noteq> []" and "\<not> int (length split_keys) dvd batch_size"
  shows "balanced_batches ds split_keys batch_size wrap s = ([], Some AssertionError, s)"
proof -
  have "batch_size div int (length split_keys) * int (length split_keys) \<noteq> batch_size"
    using assms(2) by (metis dvd_triv_right)
  then show ?thesis using assms(1) by (simp add: balanced_batches_def Let_def)
qed

theorem balanced_batches_even_split_witness:
  "[map PInt [0, 1, 2, 3], map PInt [4, 5, 6, 7]] \<noteq> []
   \<and> \<not> int (length [map PInt [0, 1, 2, 3], map PInt [4, 5, 6, 7]]) dvd 3
   \<and> balanced_batches (DictDataset []) [map PInt [0, 1, 2, 3], map PInt [4, 5, 6, 7]] 3 False ()
       = ([], Some AssertionError, ())"
proof -
  have 1: "[map PInt [0, 1, 2, 3], map PInt [4, 5, 6, 7]] \<noteq> []" by simp
  have 2: "\<not> int (length [map PInt [0, 1, 2, 3], map PInt [4, 5, 6, 7]]) dvd 3" by simp
  show ?thesis
    using balanced_batches_even_split [OF 1 2, of "DictDataset []" False "()"] 1 2 by simp
qed

text \<open>
  C6 as stated fails for an empty sequence of groups: \<open>3\<close> is not divisible by \<open>0\<close>, and
  \<open>batch_size // len(split_keys)\<close> raises \<open>ZeroDivisionError\<close> before the assertion is
  reached.
\<close>

theorem balanced_batches_no_groups_counterexample:
  "\<not> int (length ([] :: pyval list list)) dvd 3
   \<and> balanced_batches (DictDataset []) [] 3 False () = ([], Some ZeroDivisionError, ())
   \<and> balanced_batches (DictDataset []) [] 3 False () \<noteq> ([], Some AssertionError, ())"
  by (simp add: balanced_batches_def)

section \<open>Properties of the caching wrappers\<close>

lemma dict_setitem_keys: "fst ` set (dict_setitem d k v) = insert k (fst ` set d)"
  by (induction d k v rule: dict_setitem.induct) auto

lemma map_of_keys: "k \<in> fst ` set d \<Longrightarrow> \<exists>v. map_of d k = Some v \<and> (k, v) \<in> set d"
  by (induction d) auto

lemma cached_query_item_hit:
  assumes "hashable key" and "map_of (cache self) key = Some v" and "v \<noteq> PNone"
  shows "CachedDataset_query_item key (self, s) = (Inr v, (self, s))"
  using assms by (simp add: CachedDataset_query_item_def)

lemma cached_query_item_miss:
  assumes "hashable key"
    and "map_of (cache self) key = None \<or> map_of (cache self) key = Some PNone"
  shows "CachedDataset_query_item key (self, s)
           = (case dataset self of
                None \<Rightarrow> (Inl AttributeError, (self, s))
              | Some ds \<Rightarrow>
                  (case query_item ds key s of
                     (Inl e, s') \<Rightarrow> (Inl e, (self, s'))
                   | (Inr tup', s') \<Rightarrow>
                       (Inr tup', (self\<lparr>cache := dict_setitem (cache self) key tup'\<rparr>, s'))))"
  using assms by (auto simp: CachedDataset_query_item_def)

lemma cached_query_item_ok:
  assumes "CachedDataset_query_item key (self, s) = (Inr tup, (self', s'))"
  shows "hashable key \<and> dataset self' = dataset self
       \<and> list_keys_method self' = list_keys_method self
       \<and> fst ` set (cache self') = insert key (fst ` set (cache self))"
proof -
  have h: "hashable key"
    using assms by (cases "hashable key") (simp_all add: CachedDataset_query_item_def)
  consider (hit) v where "map_of (cache self) key = Some v" "v \<noteq> PNone"
    | (miss) "map_of (cache self) key = None \<or> map_of (cache self) key = Some PNone"
    by (cases "map_of (cache self) key") auto
  then show ?thesis
  proof cases
    case hit
    then have "self' = self" using cached_query_item_hit [OF h hit] assms by simp
    moreover have "key \<in> fst ` set (cache self)"
      using map_of_SomeD [OF hit(1)] by force
    ultimately show ?thesis using h by (simp add: insert_absorb)
  next
    case miss
    note m = cached_query_item_miss [OF h miss, of s]
    obtain ds where ds: "dataset self = Some ds"
      using assms m by (cases "dataset self") simp_all
    obtain r s1 where q: "query_item ds key s = (r, s1)" by (cases "query_item ds key s")
    have "self' = self\<lparr>cache := dict_setitem (cache self) key tup\<rparr>"
      using assms m ds q by (cases r) simp_all
    then show ?thesis using h by (simp add: dict_setitem_keys)
  qed
qed

lemma fill_loop_ok:
  assumes "fill_loop keys (self, s) = (None, (self', s'))"
  shows "(\<forall>k \<in> set keys. hashable k)
       \<and> dataset self' = dataset self
       \<and> list_keys_method self' = list_keys_method self
       \<and> fst ` set (cache self') = set keys \<union> fst ` set (cache self)"
  using assms
proof (induction keys arbitrary: self s)
  case Nil
  then show ?case by simp
next
  case (Cons key keys)
  obtain r self1 s1 where q: "CachedDataset_query_item key (self, s) = (r, (self1, s1))"
    by (cases "CachedDataset_query_item key (self, s)") auto
  with Cons.prems obtain tup where r: "r = Inr tup" by (cases r) simp_all
  have rest: "fill_loop keys (self1, s1) = (None, (self', s'))"
    using Cons.prems q r by simp
  note one = cached_query_item_ok [OF q [unfolded r]]
  have "(\<forall>k \<in> set keys. hashable k)
       \<and> dataset self' = dataset self1
       \<and> list_keys_method self' = list_keys_method self1
       \<and> fst ` set (cache self') = set keys \<union> fst ` set (cache self1)"
    by (rule Cons.IH [OF rest])
  then show ?case using one by auto
qed

text \<open>
  C8, as amended.  Let \<open>fill_forget\<close> return on a cache whose inner dataset enumerated
  \<open>keys\<close>, and let no cached item be \<open>None\<close>.  Then the reference to the inner dataset is
  \<open>None\<close>, \<open>list_keys\<close> yields the enumerated keys together with the keys that were in the
  cache before the fill (exactly the enumerated keys when the cache was fresh), and
  \<open>query_item\<close> on every enumerated key returns an item and leaves the cache and the state
  of the (forgotten) inner dataset as they are: there is no dataset left to call.
\<close>

theorem fill_forget_postcondition:
  assumes "dataset self = Some ds"
    and "list_keys ds s = (Inr keys, s0)"
    and "fill_forget (self, s) = (Inr (), (self', s'))"
    and "\<forall>(k, v) \<in> set (cache self'). v \<noteq> PNone"
  shows "dataset self' = None
       \<and> (\<exists>ks. CachedDataset_list_keys (self', s') = (Inr ks, (self', s'))
              \<and> set ks = set keys \<union> fst ` set (cache self))
       \<and> (\<forall>k \<in> set keys. \<exists>v. CachedDataset_query_item k (self', s') = (Inr v, (self', s')))"
proof -
  obtain r self1 s1 where f: "fill_loop keys (self, s0) = (r, (self1, s1))"
    by (cases "fill_loop keys (self, s0)") auto
  have r: "r = None" and self': "self' = self1\<lparr>list_keys_method := Cached_keys, dataset := None\<rparr>"
    and s': "s' = s1"
    using assms(1,2,3) f by (auto simp: fill_forget_def split: option.splits)
  note loop = fill_loop_ok [OF f [unfolded r]]
  have keys: "fst ` set (cache self') = set keys \<union> fst ` set (cache self)"
    using loop self' by simp
  have 1: "dataset self' = None" using self' by simp
  have 2: "CachedDataset_list_keys (self', s') = (Inr (map fst (cache self')), (self', s'))"
    using self' by (simp add: CachedDataset_list_keys_def)
  have 3: "\<forall>k \<in> set keys. \<exists>v. CachedDataset_query_item k (self', s') = (Inr v, (self', s'))"
  proof
    fix k assume k: "k \<in> set keys"
    then have h: "hashable k" using loop by simp
    have "k \<in> fst ` set (cache self')" using k keys by simp
    from map_of_keys [OF this]
    obtain v where v: "map_of (cache self') k = Some v" "(k, v) \<in> set (cache self')"
      by (elim exE conjE)
    then have "v \<noteq> PNone" using assms(4) by auto
    then have "CachedDataset_query_item k (self', s') = (Inr v, (self', s'))"
      using h v(1) by (intro cached_query_item_hit)
    then show "\<exists>v. CachedDataset_query_item k (self', s') = (Inr v, (self', s'))" by blast
  qed
  have lk: "\<exists>ks. CachedDataset_list_keys (self', s') = (Inr ks, (self', s'))
              \<and> set ks = set keys \<union> fst ` set (cache self)"
    using 2 keys by (intro exI [of _ "map fst (cache self')"]) simp
  show ?thesis by (intro conjI) (rule 1, rule lk, rule 3)
qed

theorem fill_forget_postcondition_witness:
  "\<exists>self'.
     fill_forget (CachedDataset_init
        (DictDataset [(PInt 0, PTuple [PStr ''x'']), (PInt 1, PTuple [PStr ''y''])]), ())
       = (Inr (), (self', ()))
     \<and> dataset self' = None
     \<and> CachedDataset_list_keys (self', ()) = (Inr [PInt 0, PInt 1], (self', ()))
     \<and> CachedDataset_query_item (PInt 0) (self', ()) = (Inr (PTuple [PStr ''x'']), (self', ()))
     \<and> CachedDataset_query_item (PInt 1) (self', ()) = (Inr (PTuple [PStr ''y'']), (self', ()))"
proof -
  let ?dic = "[(PInt 0, PTuple [PStr ''x'']), (PInt 1, PTuple [PStr ''y''])]"
  let ?self = "CachedDataset_init (DictDataset ?dic)"
  let ?self' = "\<lparr> dataset = None, cache = ?dic, list_keys_method = Cached_keys \<rparr>
                  :: unit CachedDataset"
  have 1: "dataset ?self = Some (DictDataset ?dic)" by (simp add: CachedDataset_init_def)
  have 2: "list_keys (DictDataset ?dic) () = (Inr [PInt 0, PInt 1], ())"
    by (simp add: DictDataset_def)
  have 3: "fill_forget (?self, ()) = (Inr (), (?self', ()))"
    by (simp add: fill_forget_def CachedDataset_init_def DictDataset_def
        CachedDataset_query_item_def Let_def)
  have 4: "\<forall>(k, v) \<in> set (cache ?self'). v \<noteq> PNone" by simp
  have q: "CachedDataset_list_keys (?self', ()) = (Inr [PInt 0, PInt 1], (?self', ()))"
    "CachedDataset_query_item (PInt 0) (?self', ()) = (Inr (PTuple [PStr ''x'']), (?self', ()))"
    "CachedDataset_query_item (PInt 1) (?self', ()) = (Inr (PTuple [PStr ''y'']), (?self', ()))"
    by (simp_all add: CachedDataset_list_keys_def CachedDataset_query_item_def Let_def)
  have "dataset ?self' = None" using fill_forget_postcondition [OF 1 2 3 4] by simp
  with 3 q show ?thesis by (intro exI [of _ ?self']) simp
qed

text \<open>
  C8 as stated fails in two ways.  An item \<open>None\<close> is stored by the fill but read back as
  a miss (\<open>cache.get(key, None)\<close> followed by \<open>is not None\<close>), so \<open>query_item\<close> on its key
  turns to the forgotten dataset and raises \<open>AttributeError\<close>.  And a key that was cached
  before the fill and is not enumerated by the inner dataset (here a \<open>_ListKeyWrapper\<close> that
  lists the first key only) is listed by \<open>list_keys\<close> after the fill.
\<close>

theorem fill_forget_counterexample:
  "fill_forget (CachedDataset_init (DictDataset [(PStr ''a'', PNone)]), ())
     = (Inr (), (\<lparr> dataset = None, cache = [(PStr ''a'', PNone)],
                    list_keys_method = Cached_keys \<rparr>, ()))
   \<and> list_keys (DictDataset [(PStr ''a'', PNone)]) () = (Inr [PStr ''a''], ())
   \<and> CachedDataset_query_item (PStr ''a'')
        (\<lparr> dataset = None, cache = [(PStr ''a'', PNone)], list_keys_method = Cached_keys \<rparr>, ())
     = (Inl AttributeError,
        (\<lparr> dataset = None, cache = [(PStr ''a'', PNone)], list_keys_method = Cached_keys \<rparr>, ()))
   \<and> list_keys (ListKeyWrapper
          (DictDataset [(PInt 0, PTuple [PStr ''x'']), (PInt 1, PTuple [PStr ''y''])]) (take 1)) ()
     = (Inr [PInt 0], ())
   \<and> fill_forget
        (snd (CachedDataset_query_item (PInt 1)
           (CachedDataset_init (ListKeyWrapper
              (DictDataset [(PInt 0, PTuple [PStr ''x'']), (PInt 1, PTuple [PStr ''y''])])
              (take 1)), ())))
     = (Inr (), (\<lparr> dataset = None,
                    cache = [(PInt 1, PTuple [PStr ''y'']), (PInt 0, PTuple [PStr ''x''])],
                    list_keys_method = Cached_keys \<rparr>, ()))
   \<and> CachedDataset_list_keys
        (\<lparr> dataset = None,
           cache = [(PInt 1, PTuple [PStr ''y'']), (PInt 0, PTuple [PStr ''x''])],
           list_keys_method = Cached_keys \<rparr>, ())
     = (Inr [PInt 1, PInt 0],
        (\<lparr> dataset = None,
           cache = [(PInt 1, PTuple [PStr ''y'']), (PInt 0, PTuple [PStr ''x''])],
           list_keys_method = Cached_keys \<rparr>, ()))"
  by (simp add: fill_forget_def CachedDataset_init_def DictDataset_def ListKeyWrapper_def
      CachedDataset_query_item_def CachedDataset_list_keys_def Let_def)

text \<open>
  C10.  On a freshly constructed \<open>CacheLastDataset\<close> the slot is \<open>(None, None)\<close>, so
  \<open>query_item(None)\<close> finds \<open>key != cached_key\<close> false and returns the slot's item \<open>None\<close>.
  The result and the state after the call are the same for every inner dataset and every
  \<open>after_cache_miss\<close>, also for those that raise or record their calls: neither is called.
\<close>

theorem cache_last_none_key:
  "CacheLastDataset_query_item ds after_cache_miss PNone (CacheLastDataset_init, s)
     = (Inr PNone, (CacheLastDataset_init, s))"
  by (simp add: CacheLastDataset_query_item_def CacheLastDataset_init_def)


section \<open>Properties of the store\<close>

lemma memo_get_Some: "memo_get m obj = Some i \<Longrightarrow> i < length m \<and> m ! i = obj"
  by (induction m arbitrary: i) (auto split: if_splits)

lemma agree_get:
  assumes "agree n m mu" and "memo_get m obj = Some i" and "size obj \<le> n"
  shows "i < length mu \<and> mu ! i = obj"
  using assms memo_get_Some [OF assms(2)] unfolding agree_def by auto

lemma agree_append: "agree n m mu \<Longrightarrow> agree n (m @ new) (mu @ new)"
  unfolding agree_def by (auto simp: nth_append)

lemma agree_open:
  assumes "agree n m mu" and "n' \<le> n" and "n' < size v"
  shows "agree n' (m @ [v]) (mu @ [w])"
  using assms unfolding agree_def by (auto simp: nth_append less_Suc_eq)

lemma int_two_parts:
  fixes i :: int
  assumes "0 \<le> i"
  shows "int (nat (i mod 2 ^ 64)) + 2 ^ 64 * int (nat (i div 2 ^ 64)) = i"
proof -
  have "0 \<le> i mod 2 ^ 64" "0 \<le> i div 2 ^ 64" using assms by (simp_all add: pos_imp_zdiv_nonneg_iff)
  then show ?thesis by simp
qed

lemma load_reference:
  assumes "agree n m mu" and "memo_get m obj = Some i" and "size obj \<le> n"
  shows "load (Suc fuel) mu ([6, i] @ rest) = Some (obj, rest, mu @ [])"
  using agree_get [OF assms] by simp

lemma size_entry: "(k, v) \<in> set d \<Longrightarrow> size k < size (PDict d) \<and> size v < size (PDict d)"
  by (induction d) auto

lemma save_load:
  shows "\<forall>n mu bs m' fuel rest.
           agree n m mu \<longrightarrow> size obj \<le> n \<longrightarrow> save m obj = (bs, m') \<longrightarrow> length bs \<le> fuel
           \<longrightarrow> bs \<noteq> []
               \<and> (\<exists>new. m' = m @ new \<and> load fuel mu (bs @ rest) = Some (obj, rest, mu @ new))"
    and "\<forall>n mu bs m' fuel rest.
           agree n m mu \<longrightarrow> (\<forall>x \<in> set xs. size x \<le> n) \<longrightarrow> save_all m xs = (bs, m')
           \<longrightarrow> length bs \<le> fuel
           \<longrightarrow> (\<exists>new. m' = m @ new
                  \<and> load_all fuel (length xs) mu (bs @ rest) = Some (xs, rest, mu @ new))"
    and "\<forall>n mu bs m' fuel rest.
           agree n m mu \<longrightarrow> (\<forall>(k, v) \<in> set d. size k \<le> n \<and> size v \<le> n)
           \<longrightarrow> save_items m d = (bs, m') \<longrightarrow> length bs \<le> fuel
           \<longrightarrow> (\<exists>new. m' = m @ new
                  \<and> load_items fuel (length d) mu (bs @ rest) = Some (d, rest, mu @ new))"
proof (induct m obj and m xs and m d rule: save_save_all_save_items.induct)
  case (1 m)
  show ?case
  proof (intro allI impI)
    fix n mu bs m' fuel rest
    assume "save m PNone = (bs, m')" and "length bs \<le> fuel"
    then obtain f where "fuel = Suc f" "bs = [0]" "m' = m" by (cases fuel) auto
    then show "bs \<noteq> [] \<and> (\<exists>new. m' = m @ new
                 \<and> load fuel mu (bs @ rest) = Some (PNone, rest, mu @ new))"
      by simp
  qed
next
  case (2 m i)
  show ?case
  proof (intro allI impI)
    fix n mu bs m' fuel rest
    assume s: "save m (PInt i) = (bs, m')" and "length bs \<le> fuel"
    then obtain f where f: "fuel = Suc f" by (cases fuel) (auto split: if_splits)
    show "bs \<noteq> [] \<and> (\<exists>new. m' = m @ new
                 \<and> load fuel mu (bs @ rest) = Some (PInt i, rest, mu @ new))"
    proof (cases "0 \<le> i")
      case True
      then show ?thesis using s f int_two_parts [OF True] by auto
    next
      case False
      then have "0 \<le> - i" by simp
      from int_two_parts [OF this] show ?thesis using s f False by auto
    qed
  qed
next
  case (3 m s)
  show ?case
  proof (intro allI impI)
    fix n mu bs m' fuel rest
    assume a: "agree n m mu" and n: "size (PStr s) \<le> n"
      and s: "save m (PStr s) = (bs, m')" and l: "length bs \<le> fuel"
    then obtain f where f: "fuel = Suc f" by (cases fuel) (auto split: option.splits)
    show "bs \<noteq> [] \<and> (\<exists>new. m' = m @ new
                 \<and> load fuel mu (bs @ rest) = Some (PStr s, rest, mu @ new))"
    proof (cases "memo_get m (PStr s)")
      case None
      then show ?thesis using s f by (auto simp: comp_def)
    next
      case (Some i)
      then have "bs = [6, i]" "m' = m" using s by simp_all
      then show ?thesis
        using load_reference [OF a Some n, of f rest] f by auto
    qed
  qed
next
  case (4 m xs)
  show ?case
  proof (intro allI impI)
    fix n mu bs m' fuel rest
    assume a: "agree n m mu" and n: "size (PTuple xs) \<le> n"
      and s: "save m (PTuple xs) = (bs, m')" and l: "length bs \<le> fuel"
    then obtain f where f: "fuel = Suc f"
      by (cases fuel) (auto split: option.splits if_splits prod.splits)
    show "bs \<noteq> [] \<and> (\<exists>new. m' = m @ new
                 \<and> load fuel mu (bs @ rest) = Some (PTuple xs, rest, mu @ new))"
    proof (cases "xs = []")
      case True
      then show ?thesis using s f by auto
    next
      case False
      show ?thesis
      proof (cases "memo_get m (PTuple xs)")
        case (Some i)
        then have "bs = [6, i]" "m' = m" using s False by simp_all
        then show ?thesis
          using load_reference [OF a Some n, of f rest] f by auto
      next
        case None
        obtain bs1 m1 where s1: "save_all m xs = (bs1, m1)" by (cases "save_all m xs")
        have bs: "bs = [4, length xs] @ bs1" and m': "m' = m1 @ [PTuple xs]"
          using s False None s1 by simp_all
        have el: "\<forall>x \<in> set xs. size x \<le> n"
          using size_tuple_member n by fastforce
        have "length bs1 \<le> f" using l bs f by simp
        with 4 [OF False None] a el s1
        obtain new where new: "m1 = m @ new"
            "load_all f (length xs) mu (bs1 @ rest) = Some (xs, rest, mu @ new)"
          by blast
        have "load fuel mu (bs @ rest) = Some (PTuple xs, rest, mu @ (new @ [PTuple xs]))"
          using new(2) False unfolding f bs by simp
        then show ?thesis using bs m' new(1) by auto
      qed
    qed
  qed
next
  case (5 m d)
  show ?case
  proof (intro allI impI)
    fix n mu bs m' fuel rest
    assume a: "agree n m mu" and n: "size (PDict d) \<le> n"
      and s: "save m (PDict d) = (bs, m')" and l: "length bs \<le> fuel"
    then obtain f where f: "fuel = Suc f"
      by (cases fuel) (auto split: option.splits prod.splits)
    show "bs \<noteq> [] \<and> (\<exists>new. m' = m @ new
                 \<and> load fuel mu (bs @ rest) = Some (PDict d, rest, mu @ new))"
    proof (cases "memo_get m (PDict d)")
      case (Some i)
      then have "bs = [6, i]" "m' = m" using s by simp_all
      then show ?thesis
        using load_reference [OF a Some n, of f rest] f by auto
    next
      case None
      obtain bs1 m1 where s1: "save_items (m @ [PDict d]) d = (bs1, m1)"
        by (cases "save_items (m @ [PDict d]) d")
      have bs: "bs = [5, length d] @ bs1" and m': "m' = m1"
        using s None s1 by simp_all
      let ?n = "size (PDict d) - 1"
      have a': "agree ?n (m @ [PDict d]) (mu @ [PDict []])"
        by (rule agree_open [OF a]) (use n in simp_all)
      have el: "\<forall>(k, v) \<in> set d. size k \<le> ?n \<and> size v \<le> ?n"
        using size_entry by fastforce
      have "length bs1 \<le> f" using l bs f by simp
      with 5 [OF None] a' el s1
      obtain new where new: "m1 = (m @ [PDict d]) @ new"
          "load_items f (length d) (mu @ [PDict []]) (bs1 @ rest)
             = Some (d, rest, (mu @ [PDict []]) @ new)"
        by blast
      have "((mu @ [PDict []]) @ new)[length mu := PDict d] = mu @ (PDict d # new)"
        by (simp add: list_update_append)
      then have "load fuel mu (bs @ rest) = Some (PDict d, rest, mu @ (PDict d # new))"
        using new(2) unfolding f bs by simp
      then show ?thesis using bs m' new(1) by auto
    qed
  qed
next
  case (6 m)
  show ?case by simp
next
  case (7 m x xs)
  show ?case
  proof (intro allI impI)
    fix n mu bs m' fuel rest
    assume a: "agree n m mu" and n: "\<forall>y \<in> set (x # xs). size y \<le> n"
      and s: "save_all m (x # xs) = (bs, m')" and l: "length bs \<le> fuel"
    obtain b m1 where s1: "save m x = (b, m1)" by (cases "save m x")
    obtain bs2 m2 where s2: "save_all m1 xs = (bs2, m2)" by (cases "save_all m1 xs")
    have bs: "bs = b @ bs2" and m': "m' = m2" using s s1 s2 by simp_all
    have "length b \<le> fuel" using l bs by simp
    with 7(1) a n s1
    obtain new1 where new1: "m1 = m @ new1"
        "load fuel mu (b @ (bs2 @ rest)) = Some (x, bs2 @ rest, mu @ new1)"
      by (metis list.set_intros(1))
    have a1: "agree n m1 (mu @ new1)" unfolding new1(1) by (rule agree_append [OF a])
    have "length bs2 \<le> fuel" using l bs by simp
    with 7(2) [OF s1 [symmetric]] a1 n s2
    obtain new2 where new2: "m2 = m1 @ new2"
        "load_all fuel (length xs) (mu @ new1) (bs2 @ rest) = Some (xs, rest, (mu @ new1) @ new2)"
      by (metis list.set_intros(2))
    show "\<exists>new. m' = m @ new
            \<and> load_all fuel (length (x # xs)) mu (bs @ rest) = Some (x # xs, rest, mu @ new)"
      using new1 new2 bs m' by (intro exI [of _ "new1 @ new2"]) simp
  qed
next
  case (8 m)
  show ?case by simp
next
  case (9 m k v d)
  show ?case
  proof (intro allI impI)
    fix n mu bs m' fuel rest
    assume a: "agree n m mu" and n: "\<forall>(k', v') \<in> set ((k, v) # d). size k' \<le> n \<and> size v' \<le> n"
      and s: "save_items m ((k, v) # d) = (bs, m')" and l: "length bs \<le> fuel"
    obtain bk m1 where s1: "save m k = (bk, m1)" by (cases "save m k")
    obtain bv m2 where s2: "save m1 v = (bv, m2)" by (cases "save m1 v")
    obtain bs3 m3 where s3: "save_items m2 d = (bs3, m3)" by (cases "save_items m2 d")
    have bs: "bs = bk @ bv @ bs3" and m': "m' = m3" using s s1 s2 s3 by simp_all
    have nk: "size k \<le> n" and nv: "size v \<le> n"
      and nd: "\<forall>(k', v') \<in> set d. size k' \<le> n \<and> size v' \<le> n"
      using n by auto
    have "length bk \<le> fuel" using l bs by simp
    with 9(1) a nk s1
    obtain new1 where new1: "m1 = m @ new1"
        "load fuel mu (bk @ (bv @ bs3 @ rest)) = Some (k, bv @ bs3 @ rest, mu @ new1)"
      by blast
    have a1: "agree n m1 (mu @ new1)" unfolding new1(1) by (rule agree_append [OF a])
    have "length bv \<le> fuel" using l bs by simp
    with 9(2) [OF s1 [symmetric]] a1 nv s2
    obtain new2 where new2: "m2 = m1 @ new2"
        "load fuel (mu @ new1) (bv @ (bs3 @ rest)) = Some (v, bs3 @ rest, (mu @ new1) @ new2)"
      by blast
    have a2: "agree n m2 ((mu @ new1) @ new2)" unfolding new2(1) by (rule agree_append [OF a1])
    have "length bs3 \<le> fuel" using l bs by simp
    with 9(3) [OF s1 [symmetric] s2 [symmetric]] a2 nd s3
    obtain new3 where new3: "m3 = m2 @ new3"
        "load_items fuel (length d) ((mu @ new1) @ new2) (bs3 @ rest)
           = Some (d, rest, ((mu @ new1) @ new2) @ new3)"
      by blast
    show "\<exists>new. m' = m @ new
            \<and> load_items fuel (length ((k, v) # d)) mu (bs @ rest)
                = Some ((k, v) # d, rest, mu @ new)"
      using new1 new2 new3 bs m' by (intro exI [of _ "new1 @ new2 @ new3"]) simp
  qed
qed

lemma agree_refl: "agree n m m"
  by (simp add: agree_def)

lemma memo_pickle_round_trips: "round_trips memo_pickle"
  unfolding round_trips_def
proof (intro allI impI)
  fix m obj bs m' rest
  assume "pickle_dump memo_pickle m obj = Inr (bs, m')"
  then have s: "save m obj = (bs, m')" by (simp add: memo_pickle_def)
  have "length bs \<le> Suc (length (bs @ rest))" by simp
  with save_load(1) [of m obj] agree_refl [of "size obj" m] s
  obtain new where "bs \<noteq> []" "m' = m @ new"
      "load (Suc (length (bs @ rest))) m (bs @ rest) = Some (obj, rest, m @ new)"
    by blast
  then show "bs \<noteq> [] \<and> pickle_load memo_pickle m (bs @ rest) = Inr (obj, length bs, m')"
    by (simp add: memo_pickle_def)
qed

lemma memo_pickle_ints_unmemoised: "ints_unmemoised memo_pickle"
  unfolding ints_unmemoised_def by (auto simp: memo_pickle_def split: if_splits)

lemma memo_pickle_fixed_width: "fixed_width_header memo_pickle"
  unfolding fixed_width_header_def by (auto simp: memo_pickle_def split: if_splits)

lemma stored_append: "stored P dic H content e \<Longrightarrow> stored P dic H (content @ extra) e"
  unfolding stored_def by (metis append.assoc drop_append)

lemma dict_setitem_set: "e \<in> set (dict_setitem d k v) \<Longrightarrow> e = (k, v) \<or> e \<in> set d"
  by (induction d k v rule: dict_setitem.induct) (auto split: if_splits)

lemma pickler_dump_None:
  assumes "pickler_dump P f m obj = (None, f', m')"
  shows "\<exists>bs. pickle_dump P m obj = Inr (bs, m') \<and> f' = file_write f bs"
  using assms by (auto simp: pickler_dump_def split: sum.splits)

lemma file_write_end:
  assumes "position f = length (data f)"
  shows "file_write f bs = f\<lparr>data := data f @ bs, position := length (data f) + length bs\<rparr>"
  using assms by (simp add: file_write_def)

lemma create_loop_stored:
  assumes "create_loop P (DictDataset dic) ks idx f [] u = (Inr (idx', m'), f', u')"
    and "position f = length (data f)" and "H \<le> length (data f)"
    and "\<forall>e \<in> set idx. stored P dic H (data f) e"
  shows "position f' = length (data f') \<and> H \<le> length (data f')
       \<and> (\<forall>e \<in> set idx'. stored P dic H (data f') e)
       \<and> (\<forall>k \<in> set ks. hashable k)
       \<and> fst ` set idx \<union> set ks \<subseteq> fst ` set idx'
       \<and> (\<exists>extra. data f' = data f @ extra)
       \<and> m' = []"
  using assms
proof (induction ks arbitrary: idx f u)
  case Nil
  then show ?case by simp
next
  case (Cons key ks)
  have h: "hashable key" using Cons.prems(1) by (auto split: if_splits)
  let ?idx = "dict_setitem idx key (PInt (int (position f)))"
  obtain obj where obj: "py_getitem (PDict dic) key = Inr obj"
    using Cons.prems(1) h
    by (cases "py_getitem (PDict dic) key") (simp_all add: DictDataset_def Let_def)
  obtain eo f1 m1 where pd: "pickler_dump P f [] obj = (eo, f1, m1)"
    by (cases "pickler_dump P f [] obj")
  have eo: "eo = None"
    using Cons.prems(1) h obj pd by (cases eo) (simp_all add: DictDataset_def Let_def)
  then obtain bs where bs: "pickle_dump P [] obj = Inr (bs, m1)" "f1 = file_write f bs"
    using pickler_dump_None pd by blast
  have f1: "f1 = f\<lparr>data := data f @ bs, position := length (data f) + length bs\<rparr>"
    using bs(2) file_write_end [OF Cons.prems(2)] by simp
  have rest: "create_loop P (DictDataset dic) ks ?idx f1 [] u = (Inr (idx', m'), f', u')"
    using Cons.prems(1) h obj pd eo by (simp add: DictDataset_def Let_def)
  have p1: "position f1 = length (data f1)" "H \<le> length (data f1)"
    using f1 Cons.prems(3) by simp_all
  have inv: "\<forall>e \<in> set ?idx. stored P dic H (data f1) e"
  proof
    fix e assume "e \<in> set ?idx"
    then consider "e = (key, PInt (int (position f)))" | "e \<in> set idx"
      using dict_setitem_set by blast
    then show "stored P dic H (data f1) e"
    proof cases
      case 1
      have "drop (position f) (data f1) = bs @ []"
        using f1 Cons.prems(2) by simp
      then show ?thesis
        unfolding stored_def using 1 obj bs(1) Cons.prems(2,3) by fastforce
    next
      case 2
      then show ?thesis using Cons.prems(4) f1 stored_append by simp
    qed
  qed
  have ih: "position f' = length (data f') \<and> H \<le> length (data f')
       \<and> (\<forall>e \<in> set idx'. stored P dic H (data f') e)
       \<and> (\<forall>k \<in> set ks. hashable k)
       \<and> fst ` set ?idx \<union> set ks \<subseteq> fst ` set idx'
       \<and> (\<exists>extra. data f' = data f1 @ extra)
       \<and> m' = []"
    by (rule Cons.IH [OF rest p1 inv])
  have keys: "fst ` set ?idx = insert key (fst ` set idx)" by (rule dict_setitem_keys)
  have "\<exists>extra. data f' = data f @ extra" using ih f1 by auto
  then show ?case using ih h keys by auto
qed

lemma create_None:
  assumes "create P ds f0 keys s = (None, f, s')"
  shows "\<exists>f1 m1 ks s1 idx m2 f2 f3 m3 f4 m4 m5.
           pickler_dump P (seek f0 0) [] (PInt (2 ^ 65)) = (None, f1, m1)
         \<and> (case keys of None \<Rightarrow> list_keys ds s | Some ks \<Rightarrow> (Inr ks, s)) = (Inr ks, s1)
         \<and> create_loop P ds ks [] f1 m1 s1 = (Inr (idx, m2), f2, s')
         \<and> pickler_dump P f2 m2 (PDict idx) = (None, f3, m3)
         \<and> (if context_map ds \<noteq> [] then pickler_dump P f3 m3 (PDict (context_map ds))
             else (None, f3, m3)) = (None, f4, m4)
         \<and> pickler_dump P (seek f4 0) m4 (PInt (int (position f2) XOR 2 ^ 65)) = (None, f, m5)"
proof -
  obtain e1 f1 m1 where 1: "pickler_dump P (seek f0 0) [] (PInt (2 ^ 65)) = (e1, f1, m1)"
    by (cases "pickler_dump P (seek f0 0) [] (PInt (2 ^ 65))")
  have e1: "e1 = None" using assms 1 by (cases e1) (simp_all add: create_def)
  obtain r2 s1 where 2: "(case keys of None \<Rightarrow> list_keys ds s | Some ks \<Rightarrow> (Inr ks, s)) = (r2, s1)"
    by (cases "case keys of None \<Rightarrow> list_keys ds s | Some ks \<Rightarrow> (Inr ks, s)")
  obtain ks where ks: "r2 = Inr ks" using assms 1 e1 2 by (cases r2) (simp_all add: create_def)
  obtain r3 f2 s2 where 3: "create_loop P ds ks [] f1 m1 s1 = (r3, f2, s2)"
    by (cases "create_loop P ds ks [] f1 m1 s1") auto
  obtain idx m2 where idx: "r3 = Inr (idx, m2)"
    using assms 1 e1 2 ks 3 by (cases r3) (auto simp: create_def)
  obtain e4 f3 m3 where 4: "pickler_dump P f2 m2 (PDict idx) = (e4, f3, m3)"
    by (cases "pickler_dump P f2 m2 (PDict idx)")
  have e4: "e4 = None"
    using assms 1 e1 2 ks 3 idx 4 by (cases e4) (simp_all add: create_def Let_def)
  obtain e5 f4 m4 where 5: "(if context_map ds \<noteq> [] then pickler_dump P f3 m3 (PDict (context_map ds))
             else (None, f3, m3)) = (e5, f4, m4)"
    by (cases "if context_map ds \<noteq> [] then pickler_dump P f3 m3 (PDict (context_map ds))
             else (None, f3, m3)")
  have e5: "e5 = None"
    using assms 1 e1 2 ks 3 idx 4 e4 5 by (cases e5) (simp_all add: create_def Let_def)
  obtain e6 f6 m5 where 6: "pickler_dump P (seek f4 0) m4 (PInt (int (position f2) XOR 2 ^ 65))
                              = (e6, f6, m5)"
    by (cases "pickler_dump P (seek f4 0) m4 (PInt (int (position f2) XOR 2 ^ 65))")
  have "e6 = None \<and> f6 = f \<and> s2 = s'"
    using assms 1 e1 2 ks 3 idx 4 e4 5 e5 6 by (simp add: create_def Let_def)
  then show ?thesis using 1 e1 2 ks 3 idx 4 e4 5 e5 6 by blast
qed

lemma unpickler_load_at:
  assumes "round_trips P" and "pickle_dump P m obj = Inr (bs, m')"
    and "drop pos (data f) = bs @ rest"
  shows "unpickler_load P (seek f pos) m = (Inr obj, f\<lparr>position := pos + length bs\<rparr>, m')"
proof -
  have "bs \<noteq> []" "pickle_load P m (bs @ rest) = Inr (obj, length bs, m')"
    using assms(1,2) by (auto simp: round_trips_def)
  then show ?thesis using assms(3) by (simp add: unpickler_load_def seek_def)
qed

text \<open>
  With the memo of its unpickler cleared, as every \<open>query_item\<close> that returns leaves it, the
  store answers with the item of the dataset.  Let the pickle library round-trip, keep
  integers out of its memo and give the header one width, let \<open>PickledDataset.create\<close>
  write the dict dataset \<open>D\<close> to a fresh file without an exception, and let the file be
  shorter than \<open>2 ^ 65\<close> bytes.  Then the file opens in default mode, and for every key \<open>k\<close>
  of the key list used at creation (the keys of \<open>D\<close> when none is given) \<open>query_item(k)\<close>
  of the opened store, at whatever position its file is, with the memo cleared, returns the
  item that \<open>D.query_item(k)\<close> returns and leaves the memo cleared.
\<close>

lemma round_trip_with_cleared_memo:
  assumes "round_trips P" and "ints_unmemoised P" and "fixed_width_header P"
    and "create P (DictDataset dic) \<lparr>name = path, data = [], position = 0\<rparr> keys u = (None, f, u')"
    and "length (data f) < 2 ^ 65"
    and "k \<in> set (case keys of None \<Rightarrow> map fst dic | Some ks \<Rightarrow> ks)"
  shows "\<exists>store v.
           PickledDataset_init P \<lparr>name = path', data = data f, position = 0\<rparr> False = Inr store
         \<and> query_item (DictDataset dic) k u = (Inr v, u)
         \<and> (\<forall>pos. \<exists>pos'.
               PickledDataset_query_item P k
                 (store\<lparr>file_handler := (file_handler store)\<lparr>position := pos\<rparr>,
                        unpickler_memo := []\<rparr>)
               = (Inr v, store\<lparr>file_handler := (file_handler store)\<lparr>position := pos'\<rparr>,
                               unpickler_memo := []\<rparr>))"
proof -
  let ?D = "DictDataset dic"
  let ?f0 = "\<lparr>name = path, data = [], position = 0\<rparr>"
  obtain f1 m1 ks s1 idx m2 f2 f3 m3 f4 m4 m5 where
    c1: "pickler_dump P (seek ?f0 0) [] (PInt (2 ^ 65)) = (None, f1, m1)"
    and c2: "(case keys of None \<Rightarrow> list_keys ?D u | Some ks \<Rightarrow> (Inr ks, u)) = (Inr ks, s1)"
    and c3: "create_loop P ?D ks [] f1 m1 s1 = (Inr (idx, m2), f2, u')"
    and c4: "pickler_dump P f2 m2 (PDict idx) = (None, f3, m3)"
    and c5: "(if context_map ?D \<noteq> [] then pickler_dump P f3 m3 (PDict (context_map ?D))
             else (None, f3, m3)) = (None, f4, m4)"
    and c6: "pickler_dump P (seek f4 0) m4 (PInt (int (position f2) XOR 2 ^ 65)) = (None, f, m5)"
    using create_None [OF assms(4)] by blast
  \<comment> \<open>the placeholder\<close>
  obtain hb where hb: "pickle_dump P [] (PInt (2 ^ 65)) = Inr (hb, m1)"
      "f1 = file_write (seek ?f0 0) hb"
    using pickler_dump_None [OF c1] by blast
  have m1: "m1 = []" using assms(2) hb(1) unfolding ints_unmemoised_def by blast
  have f1: "data f1 = hb" "position f1 = length hb"
    using hb(2) by (simp_all add: file_write_def seek_def)
  \<comment> \<open>the items\<close>
  have ks: "ks = (case keys of None \<Rightarrow> map fst dic | Some ks \<Rightarrow> ks)"
    using c2 by (cases keys) (simp_all add: DictDataset_def)
  have loop: "position f2 = length (data f2) \<and> length hb \<le> length (data f2)
       \<and> (\<forall>e \<in> set idx. stored P dic (length hb) (data f2) e)
       \<and> (\<forall>k \<in> set ks. hashable k)
       \<and> set ks \<subseteq> fst ` set idx
       \<and> (\<exists>extra. data f2 = data f1 @ extra)
       \<and> m2 = []"
    using create_loop_stored [OF c3 [unfolded m1], where H = "length hb"] f1 by simp
  then obtain body where body: "data f2 = hb @ body" using f1 by auto
  have m2: "m2 = []" using loop by simp
  \<comment> \<open>the index\<close>
  obtain ib where ib: "pickle_dump P [] (PDict idx) = Inr (ib, m3)" "f3 = file_write f2 ib"
    using pickler_dump_None [OF c4] m2 by blast
  have f3: "data f3 = hb @ body @ ib" "name f3 = name f2"
    using ib(2) loop body by (simp_all add: file_write_def)
  have f4: "f4 = f3" using c5 by (simp add: DictDataset_def)
  \<comment> \<open>the header\<close>
  obtain hb' where "pickle_dump P m4 (PInt (int (position f2) XOR 2 ^ 65)) = Inr (hb', m5)"
      and ff: "f = file_write (seek f4 0) hb'"
    using pickler_dump_None [OF c6] by blast
  then have hb': "pickle_dump P [] (PInt (int (position f2) XOR 2 ^ 65)) = Inr (hb', [])"
    using assms(2) unfolding ints_unmemoised_def by blast
  have df: "data f = hb' @ drop (length hb') (hb @ body @ ib)"
    using ff f4 f3 by (simp add: file_write_def seek_def)
  have L: "position f2 = length hb + length body" using loop body by simp
  have "length (hb @ body @ ib) \<le> length (data f)" unfolding df by simp
  then have "int (position f2) < 2 ^ 65" using assms(5) L by simp
  then have w: "length hb' = length hb"
    using assms(3) hb(1) hb' unfolding fixed_width_header_def m1 by (meson of_nat_0_le_iff)
  have content: "data f = hb' @ body @ ib" using df w by simp
  \<comment> \<open>opening\<close>
  let ?g = "\<lparr>name = path', data = data f, position = 0\<rparr>"
  have l1: "unpickler_load P (seek ?g 0) []
              = (Inr (PInt (int (position f2) XOR 2 ^ 65)), ?g\<lparr>position := 0 + length hb'\<rparr>, [])"
    by (rule unpickler_load_at [OF assms(1) hb']) (simp add: content)
  have x: "(int (position f2) XOR 2 ^ 65) XOR 2 ^ 65 = int (position f2)"
    by (simp add: xor.assoc)
  have l2: "unpickler_load P (seek (?g\<lparr>position := 0 + length hb'\<rparr>) (position f2)) []
              = (Inr (PDict idx),
                 ?g\<lparr>position := 0 + length hb'\<rparr>\<lparr>position := position f2 + length ib\<rparr>, m3)"
    by (rule unpickler_load_at [OF assms(1) ib(1), where rest = "[]"]) (simp add: content L w)
  let ?h = "\<lparr>name = path', data = data f, position = position f2 + length ib\<rparr>"
  have l3: "unpickler_load P ?h m3 = (Inl EOFError, ?h, m3)"
    by (simp add: unpickler_load_def content L w)
  let ?store = "\<lparr>file_handler = ?h, offset_keys = False, index = PDict idx,
                   stored_context = None, unpickler_memo = m3\<rparr>"
  have init: "PickledDataset_init P ?g False = Inr ?store"
    unfolding PickledDataset_init_def using l1 l2 l3 x by (simp add: Let_def)
  \<comment> \<open>querying\<close>
  have kk: "k \<in> set ks" using assms(6) ks by simp
  then have hk: "hashable k" and "k \<in> fst ` set idx" using loop by auto
  from map_of_keys [OF this(2)]
  obtain off where off: "map_of idx k = Some off" "(k, off) \<in> set idx" by (elim exE conjE)
  then have "stored P dic (length hb) (data f2) (k, off)" using loop by blast
  then obtain o' v bs mv rest where st: "off = PInt (int o')" "length hb \<le> o'"
      "py_getitem (PDict dic) k = Inr v" "pickle_dump P [] v = Inr (bs, mv)"
      "drop o' (data f2) = bs @ rest"
    unfolding stored_def by auto
  have "bs \<noteq> []" using assms(1) st(4) by (auto simp: round_trips_def)
  then have "o' < length (data f2)" using st(5) by (cases "o' < length (data f2)") simp_all
  then have "drop o' (hb @ body @ ib) = bs @ rest @ ib"
    using st(5) body by (simp del: drop_append add: drop_append [of o' "hb @ body" ib, simplified])
  moreover have "drop o' (data f) = drop o' (hb @ body @ ib)"
    unfolding content using st(2) w by simp
  ultimately have d: "\<And>pos. drop o' (data (?h\<lparr>position := pos\<rparr>)) = bs @ (rest @ ib)" by simp
  have "\<And>pos. unpickler_load P (seek (?h\<lparr>position := pos\<rparr>) o') []
          = (Inr v, ?h\<lparr>position := pos\<rparr>\<lparr>position := o' + length bs\<rparr>, mv)"
    by (rule unpickler_load_at [OF assms(1) st(4) d])
  then have q: "\<And>pos. PickledDataset_query_item P k
                     (?store\<lparr>file_handler := (file_handler ?store)\<lparr>position := pos\<rparr>,
                             unpickler_memo := []\<rparr>)
                  = (Inr v, ?store\<lparr>file_handler := (file_handler ?store)\<lparr>position := o' + length bs\<rparr>,
                                   unpickler_memo := []\<rparr>)"
    using hk off(1) st(1) by (simp add: PickledDataset_query_item_def seek_def)
  have "query_item ?D k u = (Inr v, u)"
    using st(3) by (simp add: DictDataset_def)
  with init q show ?thesis by blast
qed

lemma memo_pickle_cleared_memo:
  assumes "create memo_pickle (DictDataset dic) \<lparr>name = path, data = [], position = 0\<rparr> keys u
             = (None, f, u')"
    and "length (data f) < 2 ^ 65"
    and "k \<in> set (case keys of None \<Rightarrow> map fst dic | Some ks \<Rightarrow> ks)"
  shows "\<exists>store v.
           PickledDataset_init memo_pickle \<lparr>name = path', data = data f, position = 0\<rparr> False
             = Inr store
         \<and> query_item (DictDataset dic) k u = (Inr v, u)
         \<and> (\<forall>pos. \<exists>pos'.
               PickledDataset_query_item memo_pickle k
                 (store\<lparr>file_handler := (file_handler store)\<lparr>position := pos\<rparr>,
                        unpickler_memo := []\<rparr>)
               = (Inr v, store\<lparr>file_handler := (file_handler store)\<lparr>position := pos'\<rparr>,
                               unpickler_memo := []\<rparr>))"
  by (rule round_trip_with_cleared_memo
        [OF memo_pickle_round_trips memo_pickle_ints_unmemoised memo_pickle_fixed_width assms])

text \<open>
  C1.  The round trip asks that the store opened on the file that \<open>PickledDataset.create\<close>
  has written answers \<open>query_item(k)\<close> with the item of the dataset.  The code does not do
  so on the first query after opening.  For the dataset \<open>{'k': (s, s)}\<close> with one string
  \<open>s = 'a'\<close>, the item is written as the string, which the pickler puts into its cleared
  memo at index 0, and a reference to index 0.  \<open>__init__\<close> loads the index with the
  unpickler that \<open>query_item\<close> uses and does not clear the memo afterwards, so at the first
  query index 0 of the memo holds the index dict, and the item returned is
  \<open>('a', {'k': 3})\<close>.  That query clears the memo, and the second one returns \<open>('a', 'a')\<close>,
  the item of the dataset.
\<close>

theorem store_first_query_stale_memo:
  "create memo_pickle (DictDataset [(PStr ''k'', PTuple [PStr ''a'', PStr ''a''])])
       \<lparr>name = ''f'', data = [], position = 0\<rparr> None ()
     = (None,
        \<lparr>name = ''f'', data = [1, 10, 2, 4, 2, 3, 1, 97, 6, 0, 5, 1, 3, 1, 107, 1, 3, 0],
          position = 3\<rparr>, ())
   \<and> PickledDataset_init memo_pickle
         \<lparr>name = ''f'', data = [1, 10, 2, 4, 2, 3, 1, 97, 6, 0, 5, 1, 3, 1, 107, 1, 3, 0],
           position = 0\<rparr> False
     = Inr \<lparr>file_handler =
              \<lparr>name = ''f'', data = [1, 10, 2, 4, 2, 3, 1, 97, 6, 0, 5, 1, 3, 1, 107, 1, 3, 0],
                position = 18\<rparr>,
            offset_keys = False, index = PDict [(PStr ''k'', PInt 3)], stored_context = None,
            unpickler_memo = [PDict [(PStr ''k'', PInt 3)], PStr ''k'']\<rparr>
   \<and> query_item (DictDataset [(PStr ''k'', PTuple [PStr ''a'', PStr ''a''])]) (PStr ''k'') ()
     = (Inr (PTuple [PStr ''a'', PStr ''a'']), ())
   \<and> PickledDataset_query_item memo_pickle (PStr ''k'')
         \<lparr>file_handler =
            \<lparr>name = ''f'', data = [1, 10, 2, 4, 2, 3, 1, 97, 6, 0, 5, 1, 3, 1, 107, 1, 3, 0],
              position = 18\<rparr>,
          offset_keys = False, index = PDict [(PStr ''k'', PInt 3)], stored_context = None,
          unpickler_memo = [PDict [(PStr ''k'', PInt 3)], PStr ''k'']\<rparr>
     = (Inr (PTuple [PStr ''a'', PDict [(PStr ''k'', PInt 3)]]),
        \<lparr>file_handler =
           \<lparr>name = ''f'', data = [1, 10, 2, 4, 2, 3, 1, 97, 6, 0, 5, 1, 3, 1, 107, 1, 3, 0],
             position = 10\<rparr>,
         offset_keys = False, index = PDict [(PStr ''k'', PInt 3)], stored_context = None,
         unpickler_memo = []\<rparr>)
   \<and> PickledDataset_query_item memo_pickle (PStr ''k'')
         \<lparr>file_handler =
            \<lparr>name = ''f'', data = [1, 10, 2, 4, 2, 3, 1, 97, 6, 0, 5, 1, 3, 1, 107, 1, 3, 0],
              position = 10\<rparr>,
          offset_keys = False, index = PDict [(PStr ''k'', PInt 3)], stored_context = None,
          unpickler_memo = []\<rparr>
     = (Inr (PTuple [PStr ''a'', PStr ''a'']),
        \<lparr>file_handler =
           \<lparr>name = ''f'', data = [1, 10, 2, 4, 2, 3, 1, 97, 6, 0, 5, 1, 3, 1, 107, 1, 3, 0],
             position = 10\<rparr>,
         offset_keys = False, index = PDict [(PStr ''k'', PInt 3)], stored_context = None,
         unpickler_memo = []\<rparr>)"
  by code_simp

section \<open>Properties of pickle_or_load\<close>

text \<open>
  C2.  Let the path not exist, let \<open>before_pickling\<close> (if any) return, let the file be
  created by \<open>open\<close>, and let \<open>PickledDataset.create\<close> then raise \<open>e\<close>, whatever was written
  by then.  Then \<open>pickle_or_load\<close> raises \<open>e\<close>, and no file is left at the path.
\<close>

theorem partial_write_cleanup:
  assumes "files w path = None"
    and "run_before before_pickling w = (None, w1)"
    and "can_create w1 path"
    and "create P ds \<lparr>name = path, data = [], position = 0\<rparr> keys (dstate w1) = (Some e, f, s')"
  shows "\<exists>w'. pickle_or_load P ds path keys check_first_n_items overwrite before_pickling w
                 = (Inl e, w')
           \<and> files w' path = None \<and> dstate w' = s' \<and> stderr w' = stderr w1"
proof -
  have "create_new P ds path keys before_pickling w
          = (Some e, w1\<lparr>dstate := s', files := (files w1)(path := None)\<rparr>)"
    using assms(2,3,4) by (simp add: create_new_def Let_def)
  then show ?thesis using assms(1) by (simp add: pickle_or_load_def Let_def)
qed

theorem partial_write_cleanup_witness:
  "\<exists>w'. pickle_or_load memo_pickle
           (DictDataset [(PStr ''a'', PInt 1), (PStr ''b'', PTuple [PInt 2, PStr ''x''])])
           ''f'' (Some [PStr ''a'', PStr ''c'']) 1 False None
           \<lparr>dstate = (), files = (\<lambda>p. None), can_create = (\<lambda>p. True), stderr = []\<rparr>
         = (Inl (KeyError (PStr ''c'')), w')
     \<and> files w' ''f'' = None"
proof -
  let ?w = "\<lparr>dstate = (), files = (\<lambda>p. None), can_create = (\<lambda>p. True), stderr = []\<rparr>
              :: unit world"
  let ?D = "DictDataset [(PStr ''a'', PInt 1), (PStr ''b'', PTuple [PInt 2, PStr ''x''])]"
  have 1: "files ?w ''f'' = None" by simp
  have 2: "run_before None ?w = (None, ?w)" by (simp add: run_before_def)
  have 3: "can_create ?w ''f''" by simp
  have 4: "create memo_pickle ?D \<lparr>name = ''f'', data = [], position = 0\<rparr>
             (Some [PStr ''a'', PStr ''c'']) (dstate ?w)
           = (Some (KeyError (PStr ''c'')),
              \<lparr>name = ''f'', data = [1, 0, 2, 1, 1, 0], position = 6\<rparr>, ())"
    by code_simp
  show ?thesis
    using partial_write_cleanup [OF 1 2 3 4, of 1 False] by blast
qed

lemma check_items_passed:
  assumes "check_items P ds path was_existing passed opened w = (None, opened1, w2)"
    and "stderr w2 = stderr w"
  shows "check_items P ds path was_existing (passed @ rest) opened w
           = check_items P ds path was_existing rest opened1 w2"
  using assms
proof (induction passed arbitrary: opened w)
  case Nil
  then show ?case by simp
next
  case (Cons k passed)
  obtain fresh s' where q: "query_item ds k (dstate w) = (fresh, s')"
    by (cases "query_item ds k (dstate w)")
  obtain true_item where t: "fresh = Inr true_item"
    using Cons.prems(1) q by (cases fresh) simp_all
  obtain r opened' where l: "PickledDataset_query_item P k opened = (r, opened')"
    by (cases "PickledDataset_query_item P k opened")
  let ?compared = "case r of Inl e \<Rightarrow> Inl (missing_key_reason e)
                             | Inr loaded_item \<Rightarrow> items_equality ds true_item loaded_item"
  have eq: "?compared = Inr True"
  proof (cases ?compared)
    case (Inl e)
    then show ?thesis
      using Cons.prems q t l by (cases "caught_reason e") (auto simp: Let_def split: if_splits)
  next
    case (Inr equality)
    then show ?thesis
      using Cons.prems q t l by (cases equality) (auto simp: Let_def)
  qed
  have step: "\<And>chunk. check_items P ds path was_existing (k # chunk) opened w
                 = check_items P ds path was_existing chunk opened' (w\<lparr>dstate := s'\<rparr>)"
    using q t l eq by (simp add: Let_def)
  have "check_items P ds path was_existing passed opened' (w\<lparr>dstate := s'\<rparr>) = (None, opened1, w2)"
    using Cons.prems(1) step [of passed] by simp
  moreover have "stderr w2 = stderr (w\<lparr>dstate := s'\<rparr>)" using Cons.prems(2) by simp
  ultimately have "check_items P ds path was_existing (passed @ rest) opened' (w\<lparr>dstate := s'\<rparr>)
           = check_items P ds path was_existing rest opened1 w2"
    by (rule Cons.IH)
  then show ?case using step [of "passed @ rest"] by simp
qed

lemma pickle_or_load_check:
  assumes "was_existing \<longleftrightarrow> files w path \<noteq> None \<and> \<not> overwrite"
    and "w0 = (if overwrite \<and> files w path \<noteq> None then w\<lparr>files := (files w)(path := None)\<rparr> else w)"
    and "(if was_existing then (None, w0) else create_new P ds path keys before_pickling w0)
           = (None, w1)"
    and "files w1 path = Some bytes"
    and "PickledDataset_init P \<lparr>name = path, data = bytes, position = 0\<rparr> False = Inr opened"
    and "(case keys of None \<Rightarrow> list_keys ds (dstate w1) | Some ks \<Rightarrow> (Inr ks, dstate w1))
           = (Inr ks, s1)"
    and "first_chunk ks check_first_n_items = Inr chunk"
  shows "pickle_or_load P ds path keys check_first_n_items overwrite before_pickling w
           = (case check_items P ds path was_existing chunk opened (w1\<lparr>dstate := s1\<rparr>) of
                (Some e, opened', w2) \<Rightarrow> (Inl e, w2)
              | (None, opened', w2) \<Rightarrow> (Inr opened', w2))"
proof -
  have we: "(if overwrite \<and> files w path \<noteq> None then False else files w path \<noteq> None) = was_existing"
    using assms(1) by auto
  show ?thesis
    unfolding pickle_or_load_def Let_def we assms(2) [symmetric]
    using assms(3,4,5,6,7) by (cases was_existing) (simp_all del: check_items.simps)
qed

text \<open>
  C7, as amended.  Let \<open>pickle_or_load\<close> reach the staleness check: the store, found at
  the path or just created there, opens, and the first chunk of the keys is \<open>passed\<close>, then
  \<open>k\<close>, then \<open>later\<close>.  Let the keys of \<open>passed\<close> pass the check: the loop over them ends
  with no warning and no exception.  Let \<open>fresh\<close> be what re-querying the dataset for \<open>k\<close>
  gives and \<open>loaded\<close> what the store gives for \<open>k\<close>.

  \<^item> When the key is missing from the store (\<open>KeyError\<close>), or the comparison of the fresh
    and the stored item raises \<open>DiffReason\<close>, then \<open>pickle_or_load\<close> returns the opened
    store, and all it adds is the warning that the store seems out of date, with that
    reason (and the note on determinism for a store that was just created).
  \<^item> When the comparison, or the load of the stored item, raises anything else, then
    \<open>pickle_or_load\<close> raises it, after the warning that the store could not be checked if
    the exception derives from \<open>Exception\<close>.
  \<^item> When re-querying the dataset raises, \<open>pickle_or_load\<close> raises that, with no warning.
\<close>

theorem staleness_check_outcomes:
  assumes "was_existing \<longleftrightarrow> files w path \<noteq> None \<and> \<not> overwrite"
    and "w0 = (if overwrite \<and> files w path \<noteq> None then w\<lparr>files := (files w)(path := None)\<rparr> else w)"
    and "(if was_existing then (None, w0) else create_new P ds path keys before_pickling w0)
           = (None, w1)"
    and "files w1 path = Some bytes"
    and "PickledDataset_init P \<lparr>name = path, data = bytes, position = 0\<rparr> False = Inr opened"
    and "(case keys of None \<Rightarrow> list_keys ds (dstate w1) | Some ks \<Rightarrow> (Inr ks, dstate w1))
           = (Inr ks, s1)"
    and "first_chunk ks check_first_n_items = Inr (passed @ k # later)"
    and "check_items P ds path was_existing passed opened (w1\<lparr>dstate := s1\<rparr>)
           = (None, opened1, w2)"
    and "stderr w2 = stderr w1"
    and "query_item ds k (dstate w2) = (fresh, s2)"
    and "PickledDataset_query_item P k opened1 = (loaded, opened2)"
  shows
    "let result = pickle_or_load P ds path keys check_first_n_items overwrite before_pickling w;
         mismatch = (\<lambda>reason.
           (Inr opened2,
            w2\<lparr>dstate := s2,
                stderr := stderr w2 @ Out_of_date path (Some reason)
                                      # (if was_existing then [] else [Just_created])\<rparr>));
         raised = (\<lambda>e.
           (Inl e,
            w2\<lparr>dstate := s2,
                stderr := stderr w2 @ (if is_Exception e then [Could_not_check path] else [])\<rparr>))
     in (\<forall>true_item x. fresh = Inr true_item \<and> loaded = Inl (KeyError x)
            \<longrightarrow> result = mismatch (Does_not_contain_key x))
      \<and> (\<forall>true_item loaded_item reason.
            fresh = Inr true_item \<and> loaded = Inr loaded_item
              \<and> items_equality ds true_item loaded_item = Inl (DiffReason reason)
            \<longrightarrow> result = mismatch reason)
      \<and> (\<forall>true_item loaded_item e.
            fresh = Inr true_item \<and> loaded = Inr loaded_item
              \<and> items_equality ds true_item loaded_item = Inl e \<and> (\<forall>reason. e \<noteq> DiffReason reason)
            \<longrightarrow> result = raised e)
      \<and> (\<forall>true_item e.
            fresh = Inr true_item \<and> loaded = Inl e
              \<and> (\<forall>x. e \<noteq> KeyError x) \<and> (\<forall>reason. e \<noteq> DiffReason reason)
            \<longrightarrow> result = raised e)
      \<and> (\<forall>e. fresh = Inl e \<longrightarrow> result = (Inl e, w2\<lparr>dstate := s2\<rparr>))"
proof -
  let ?result = "pickle_or_load P ds path keys check_first_n_items overwrite before_pickling w"
  let ?check = "check_items P ds path was_existing (k # later) opened1 w2"
  have "stderr w2 = stderr (w1\<lparr>dstate := s1\<rparr>)" using assms(9) by simp
  from check_items_passed [OF assms(8) this, of "k # later"]
  have "?result = (case ?check of (Some e, opened', w') \<Rightarrow> (Inl e, w')
                                | (None, opened', w') \<Rightarrow> (Inr opened', w'))"
    using pickle_or_load_check [OF assms(1-7)] by simp
  note result = this
  have other: "\<And>e. (\<forall>reason. e \<noteq> DiffReason reason) \<Longrightarrow> caught_reason e = None"
    by (case_tac e) simp_all
  have other': "\<And>e. (\<forall>x. e \<noteq> KeyError x) \<Longrightarrow> missing_key_reason e = e"
    by (case_tac e) simp_all
  show ?thesis
    unfolding Let_def result
    using assms(10,11) by (auto simp: Let_def other other')
qed

theorem staleness_check_outcomes_witness:
  "(case pickle_or_load memo_pickle
           (DictDataset [(PStr ''a'', PInt 1), (PStr ''z'', PInt 2)])
           ''f'' (Some [PStr ''a'', PStr ''z'']) 2 False None
           \<lparr>dstate = (),
             files = (\<lambda>p. if p = ''f''
                          then Some [1, 14, 2, 1, 1, 0, 4, 2, 1, 2, 0, 3, 1, 120, 5, 2, 3, 1, 97,
                                     1, 3, 0, 3, 1, 98, 1, 6, 0]
                          else None),
             can_create = (\<lambda>p. True), stderr = []\<rparr> of
      (r, w') \<Rightarrow>
        r = Inr \<lparr>file_handler =
                   \<lparr>name = ''f'',
                     data = [1, 14, 2, 1, 1, 0, 4, 2, 1, 2, 0, 3, 1, 120, 5, 2, 3, 1, 97, 1, 3,
                             0, 3, 1, 98, 1, 6, 0],
                     position = 6\<rparr>,
                 offset_keys = False,
                 index = PDict [(PStr ''a'', PInt 3), (PStr ''b'', PInt 6)],
                 stored_context = None, unpickler_memo = []\<rparr>
        \<and> stderr w' = [Out_of_date ''f'' (Some (Does_not_contain_key (PStr ''z'')))])
   \<and> (case pickle_or_load memo_pickle
           ((DictDataset [(PStr ''a'', PInt 1)])
              \<lparr>items_equality := (\<lambda>a b. Inl (DiffReason (Reason ''differs'')))\<rparr>)
           ''f'' None 1 False None
           \<lparr>dstate = (), files = (\<lambda>p. None), can_create = (\<lambda>p. True), stderr = []\<rparr> of
      (r, w') \<Rightarrow>
        r = Inr \<lparr>file_handler =
                   \<lparr>name = ''f'', data = [1, 6, 2, 1, 1, 0, 5, 1, 3, 1, 97, 1, 3, 0],
                     position = 6\<rparr>,
                 offset_keys = False, index = PDict [(PStr ''a'', PInt 3)],
                 stored_context = None, unpickler_memo = []\<rparr>
        \<and> stderr w' = [Out_of_date ''f'' (Some (Reason ''differs'')), Just_created])
   \<and> (case pickle_or_load memo_pickle
           ((DictDataset [(PStr ''a'', PInt 1)])
              \<lparr>items_equality := (\<lambda>a b. Inl (Fault ''ValueError''))\<rparr>)
           ''f'' None 1 False None
           \<lparr>dstate = (), files = (\<lambda>p. None), can_create = (\<lambda>p. True), stderr = []\<rparr> of
      (r, w') \<Rightarrow> r = Inl (Fault ''ValueError'') \<and> stderr w' = [Could_not_check ''f''])
   \<and> (case pickle_or_load memo_pickle
           (DictDataset [(PStr ''a'', PInt 1)])
           ''f'' (Some [PStr ''q'']) 1 False None
           \<lparr>dstate = (),
             files = (\<lambda>p. if p = ''f''
                          then Some [1, 14, 2, 1, 1, 0, 4, 2, 1, 2, 0, 3, 1, 120, 5, 2, 3, 1, 97,
                                     1, 3, 0, 3, 1, 98, 1, 6, 0]
                          else None),
             can_create = (\<lambda>p. True), stderr = []\<rparr> of
      (r, w') \<Rightarrow> r = Inl (KeyError (PStr ''q'')) \<and> stderr w' = [])"
proof -
  let ?bytes = "[1, 14, 2, 1, 1, 0, 4, 2, 1, 2, 0, 3, 1, 120, 5, 2, 3, 1, 97, 1, 3, 0, 3, 1,
                 98, 1, 6, 0] :: byte list"
  let ?w = "\<lparr>dstate = (), files = (\<lambda>p. if p = ''f'' then Some ?bytes else None),
              can_create = (\<lambda>p. True), stderr = []\<rparr> :: unit world"
  let ?opened = "\<lparr>file_handler = \<lparr>name = ''f'', data = ?bytes, position = 28\<rparr>,
                   offset_keys = False,
                   index = PDict [(PStr ''a'', PInt 3), (PStr ''b'', PInt 6)],
                   stored_context = None,
                   unpickler_memo = [PDict [(PStr ''a'', PInt 3), (PStr ''b'', PInt 6)],
                                     PStr ''a'', PStr ''b'']\<rparr>"
  let ?opened1 = "\<lparr>file_handler = \<lparr>name = ''f'', data = ?bytes, position = 6\<rparr>,
                    offset_keys = False,
                    index = PDict [(PStr ''a'', PInt 3), (PStr ''b'', PInt 6)],
                    stored_context = None, unpickler_memo = []\<rparr>"
  have e1: "True \<longleftrightarrow> files ?w ''f'' \<noteq> None \<and> \<not> False" by simp
  have e2: "?w = (if False \<and> files ?w ''f'' \<noteq> None then ?w\<lparr>files := (files ?w)(''f'' := None)\<rparr>
                  else ?w)"
    by simp
  have e3: "\<And>D keys. (if True then (None, ?w) else create_new memo_pickle D ''f'' keys None ?w)
              = (None, ?w)"
    by simp
  have e4: "files ?w ''f'' = Some ?bytes" by simp
  have e5: "PickledDataset_init memo_pickle \<lparr>name = ''f'', data = ?bytes, position = 0\<rparr> False
              = Inr ?opened"
    by code_simp
  \<comment> \<open>a key missing from the store, met at the second key of the chunk\<close>
  let ?A = "DictDataset [(PStr ''a'', PInt 1), (PStr ''z'', PInt 2)]"
  have a6: "(case Some [PStr ''a'', PStr ''z''] of
               None \<Rightarrow> list_keys ?A (dstate ?w)
             | Some ks \<Rightarrow> (Inr ks, dstate ?w)) = (Inr [PStr ''a'', PStr ''z''], ())"
    by simp
  have a7: "first_chunk [PStr ''a'', PStr ''z''] 2 = Inr ([PStr ''a''] @ PStr ''z'' # [])"
    by code_simp
  have a8q: "PickledDataset_query_item memo_pickle (PStr ''a'') ?opened = (Inr (PInt 1), ?opened1)"
    by code_simp
  have a8: "check_items memo_pickle ?A ''f'' True [PStr ''a''] ?opened (?w\<lparr>dstate := ()\<rparr>)
              = (None, ?opened1, ?w)"
    using a8q by (simp add: DictDataset_def Let_def)
  have a9: "stderr ?w = stderr ?w" by simp
  have a10: "query_item ?A (PStr ''z'') (dstate ?w) = (Inr (PInt 2), ())"
    by (simp add: DictDataset_def)
  have a11: "PickledDataset_query_item memo_pickle (PStr ''z'') ?opened1
               = (Inl (KeyError (PStr ''z'')), ?opened1)"
    by (simp add: PickledDataset_query_item_def)
  have A: "pickle_or_load memo_pickle ?A ''f'' (Some [PStr ''a'', PStr ''z'']) 2 False None ?w
             = (Inr ?opened1,
                ?w\<lparr>stderr := [Out_of_date ''f'' (Some (Does_not_contain_key (PStr ''z'')))]\<rparr>)"
    using staleness_check_outcomes [OF e1 e2 e3 e4 e5 a6 a7 a8 a9 a10 a11]
    by (simp add: Let_def)
  \<comment> \<open>a re-query that raises\<close>
  let ?Q = "DictDataset [(PStr ''a'', PInt 1)]"
  have q6: "(case Some [PStr ''q''] of
               None \<Rightarrow> list_keys ?Q (dstate ?w)
             | Some ks \<Rightarrow> (Inr ks, dstate ?w)) = (Inr [PStr ''q''], ())"
    by simp
  have q7: "first_chunk [PStr ''q''] 1 = Inr ([] @ PStr ''q'' # [])"
    by code_simp
  have q8: "check_items memo_pickle ?Q ''f'' True [] ?opened (?w\<lparr>dstate := ()\<rparr>)
              = (None, ?opened, ?w)"
    by simp
  have q10: "query_item ?Q (PStr ''q'') (dstate ?w) = (Inl (KeyError (PStr ''q'')), ())"
    by (simp add: DictDataset_def)
  have q11: "PickledDataset_query_item memo_pickle (PStr ''q'') ?opened
               = (Inl (KeyError (PStr ''q'')), ?opened)"
    by (simp add: PickledDataset_query_item_def)
  have Q: "pickle_or_load memo_pickle ?Q ''f'' (Some [PStr ''q'']) 1 False None ?w
             = (Inl (KeyError (PStr ''q'')), ?w)"
    using staleness_check_outcomes [OF e1 e2 e3 e4 e5 q6 q7 q8 a9 q10 q11]
    by (simp add: Let_def)
  \<comment> \<open>a store that has just been created\<close>
  let ?v = "\<lparr>dstate = (), files = (\<lambda>p. None), can_create = (\<lambda>p. True), stderr = []\<rparr>
              :: unit world"
  let ?bytes' = "[1, 6, 2, 1, 1, 0, 5, 1, 3, 1, 97, 1, 3, 0] :: byte list"
  let ?v1 = "\<lparr>dstate = (), files = (\<lambda>p. None)(''f'' \<mapsto> ?bytes'), can_create = (\<lambda>p. True),
               stderr = []\<rparr> :: unit world"
  let ?created = "\<lparr>file_handler = \<lparr>name = ''f'', data = ?bytes', position = 14\<rparr>,
                    offset_keys = False, index = PDict [(PStr ''a'', PInt 3)],
                    stored_context = None,
                    unpickler_memo = [PDict [(PStr ''a'', PInt 3)], PStr ''a'']\<rparr>"
  let ?created1 = "\<lparr>file_handler = \<lparr>name = ''f'', data = ?bytes', position = 6\<rparr>,
                     offset_keys = False, index = PDict [(PStr ''a'', PInt 3)],
                     stored_context = None, unpickler_memo = []\<rparr>"
  have n1: "False \<longleftrightarrow> files ?v ''f'' \<noteq> None \<and> \<not> False" by simp
  have n2: "?v = (if False \<and> files ?v ''f'' \<noteq> None then ?v\<lparr>files := (files ?v)(''f'' := None)\<rparr>
                  else ?v)"
    by simp
  have c: "\<And>eq. create memo_pickle ((DictDataset [(PStr ''a'', PInt 1)])\<lparr>items_equality := eq\<rparr>)
                  \<lparr>name = ''f'', data = [], position = 0\<rparr> None ()
             = (None, \<lparr>name = ''f'', data = ?bytes', position = 3\<rparr>, ())"
    by code_simp
  have n3: "\<And>eq. (if False then (None, ?v)
                  else create_new memo_pickle ((DictDataset [(PStr ''a'', PInt 1)])\<lparr>items_equality := eq\<rparr>)
                         ''f'' None None ?v) = (None, ?v1)"
    using c by (simp add: create_new_def run_before_def Let_def)
  have n4: "files ?v1 ''f'' = Some ?bytes'" by simp
  have n5: "PickledDataset_init memo_pickle \<lparr>name = ''f'', data = ?bytes', position = 0\<rparr> False
              = Inr ?created"
    by code_simp
  have n6: "\<And>eq. (case None of
               None \<Rightarrow> list_keys ((DictDataset [(PStr ''a'', PInt 1)])\<lparr>items_equality := eq\<rparr>) (dstate ?v1)
             | Some ks \<Rightarrow> (Inr ks, dstate ?v1)) = (Inr [PStr ''a''], ())"
    by (simp add: DictDataset_def)
  have n7: "first_chunk [PStr ''a''] 1 = Inr ([] @ PStr ''a'' # [])"
    by code_simp
  have n8: "\<And>eq. check_items memo_pickle ((DictDataset [(PStr ''a'', PInt 1)])\<lparr>items_equality := eq\<rparr>)
                  ''f'' False [] ?created (?v1\<lparr>dstate := ()\<rparr>)
              = (None, ?created, ?v1)"
    by simp
  have n9: "stderr ?v1 = stderr ?v1" by simp
  have n10: "\<And>eq. query_item ((DictDataset [(PStr ''a'', PInt 1)])\<lparr>items_equality := eq\<rparr>)
                   (PStr ''a'') (dstate ?v1) = (Inr (PInt 1), ())"
    by (simp add: DictDataset_def)
  have n11: "PickledDataset_query_item memo_pickle (PStr ''a'') ?created = (Inr (PInt 1), ?created1)"
    by code_simp
  let ?B = "(DictDataset [(PStr ''a'', PInt 1)])
              \<lparr>items_equality := (\<lambda>a b. Inl (DiffReason (Reason ''differs'')))\<rparr>"
  have B: "pickle_or_load memo_pickle ?B ''f'' None 1 False None ?v
             = (Inr ?created1,
                ?v1\<lparr>stderr := [Out_of_date ''f'' (Some (Reason ''differs'')), Just_created]\<rparr>)"
    using staleness_check_outcomes [OF n1 n2 n3 [of "items_equality ?B"] n4 n5
            n6 [of "items_equality ?B"] n7 n8 [of "items_equality ?B"] n9
            n10 [of "items_equality ?B"] n11]
    by (simp add: Let_def)
  let ?C = "(DictDataset [(PStr ''a'', PInt 1)])
              \<lparr>items_equality := (\<lambda>a b. Inl (Fault ''ValueError''))\<rparr>"
  have C: "pickle_or_load memo_pickle ?C ''f'' None 1 False None ?v
             = (Inl (Fault ''ValueError''), ?v1\<lparr>stderr := [Could_not_check ''f'']\<rparr>)"
    using staleness_check_outcomes [OF n1 n2 n3 [of "items_equality ?C"] n4 n5
            n6 [of "items_equality ?C"] n7 n8 [of "items_equality ?C"] n9
            n10 [of "items_equality ?C"] n11]
    by (simp add: Let_def)
  show ?thesis
    unfolding A B C Q by simp
qed

text \<open>
  C7 as stated fails: an exception of the comparison that is not a \<open>DiffReason\<close> is
  caught by \<open>except Exception\<close>, which writes a warning and raises it again, so it reaches
  the caller of \<open>pickle_or_load\<close> and no store is returned.
\<close>

theorem staleness_fault_counterexample:
  "fst (pickle_or_load memo_pickle
          ((DictDataset [(PStr ''a'', PInt 1)])
             \<lparr>items_equality := (\<lambda>a b. Inl (Fault ''ValueError''))\<rparr>)
          ''f'' None 1 False None
          \<lparr>dstate = (), files = (\<lambda>p. None), can_create = (\<lambda>p. True), stderr = []\<rparr>)
     = Inl (Fault ''ValueError'')
   \<and> stderr (snd (pickle_or_load memo_pickle
          ((DictDataset [(PStr ''a'', PInt 1)])
             \<lparr>items_equality := (\<lambda>a b. Inl (Fault ''ValueError''))\<rparr>)
          ''f'' None 1 False None
          \<lparr>dstate = (), files = (\<lambda>p. None), can_create = (\<lambda>p. True), stderr = []\<rparr>))
     = [Could_not_check ''f'']"
  by code_simp

end
